theory Spec2Isabelle
  imports Complex_Main
begin

section \<open>Floating-point values as the program compares them\<close>

text \<open>
  The module only negates and compares floats; it never adds or multiplies them.  A float
  is therefore a finite real, one of the two infinities, or NaN.  Negation is exact, and the
  comparisons follow IEEE 754: every ordered comparison with NaN is false, and NaN is not
  equal to anything.  The two zeros compare equal and are one value here.
\<close>

datatype pyfloat = Fin real | PInf | NInf | NaN

fun fneg :: "pyfloat \<Rightarrow> pyfloat" where
  "fneg (Fin r) = Fin (- r)"
| "fneg PInf = NInf"
| "fneg NInf = PInf"
| "fneg NaN = NaN"

fun isnan :: "pyfloat \<Rightarrow> bool" where
  "isnan NaN = True"
| "isnan (Fin r) = False"
| "isnan PInf = False"
| "isnan NInf = False"

text \<open>\<open>fle a b\<close> is \<open>a <= b\<close>, \<open>flt a b\<close> is \<open>a < b\<close>, \<open>feq a b\<close> is \<open>a == b\<close>.\<close>

fun fle :: "pyfloat \<Rightarrow> pyfloat \<Rightarrow> bool" where
  "fle NaN b = False"
| "fle (Fin x) (Fin y) = (x \<le> y)"
| "fle (Fin x) PInf = True"
| "fle (Fin x) NInf = False"
| "fle (Fin x) NaN = False"
| "fle PInf PInf = True"
| "fle PInf (Fin y) = False"
| "fle PInf NInf = False"
| "fle PInf NaN = False"
| "fle NInf NaN = False"
| "fle NInf (Fin y) = True"
| "fle NInf PInf = True"
| "fle NInf NInf = True"

fun flt :: "pyfloat \<Rightarrow> pyfloat \<Rightarrow> bool" where
  "flt NaN b = False"
| "flt (Fin x) (Fin y) = (x < y)"
| "flt (Fin x) PInf = True"
| "flt (Fin x) NInf = False"
| "flt (Fin x) NaN = False"
| "flt PInf b = False"
| "flt NInf NaN = False"
| "flt NInf (Fin y) = True"
| "flt NInf PInf = True"
| "flt NInf NInf = False"

definition feq :: "pyfloat \<Rightarrow> pyfloat \<Rightarrow> bool" where
  "feq a b = (\<not> isnan a \<and> a = b)"

definition fge :: "pyfloat \<Rightarrow> pyfloat \<Rightarrow> bool" where
  "fge a b = fle b a"

definition fgt :: "pyfloat \<Rightarrow> pyfloat \<Rightarrow> bool" where
  "fgt a b = flt b a"

section \<open>Trials and directions\<close>

text \<open>
  Modelled from the spec: the enumerations \<open>StudyDirection\<close> and \<open>TrialState\<close> and the class
  \<open>FrozenTrial\<close> are imported by the module from other files.  A direction is MINIMIZE or
  MAXIMIZE; of the trial states only COMPLETE is distinguished by the module; a trial
  carries its number, its state and an optional list of optional floats.
\<close>

datatype StudyDirection = MINIMIZE | MAXIMIZE

datatype TrialState = RUNNING | COMPLETE | PRUNED | FAIL | WAITING

record FrozenTrial =
  number :: int
  state :: TrialState
  "values" :: "pyfloat option list option"

datatype error = ValueError | AssertionError | TypeError | IndexError

section \<open>Normalisation and dominance\<close>

text \<open>
  \<^verbatim>\<open>
  def _normalize_value(value, direction):
      if value is None:
          value = float("inf")
      if direction is StudyDirection.MAXIMIZE:
          value = -value
      return value
  \<close>
\<close>

definition normalize_value :: "pyfloat option \<Rightarrow> StudyDirection \<Rightarrow> pyfloat" where
  "normalize_value v direction =
     (let v1 = (case v of None \<Rightarrow> PInf | Some x \<Rightarrow> x)
      in if direction = MAXIMIZE then fneg v1 else v1)"

text \<open>
  Equality of two lists of floats, element by element with \<open>==\<close>.  Python's list equality
  first tests whether two elements are the same object; that shortcut can only turn a
  comparison of a NaN with itself into "equal".  Lemma \<open>dominates_tail_identity\<close> below
  shows that the result of \<open>dominates\<close> is the same whichever way such a comparison goes.
\<close>

fun list_feq :: "pyfloat list \<Rightarrow> pyfloat list \<Rightarrow> bool" where
  "list_feq [] [] = True"
| "list_feq (x # xs) (y # ys) = (feq x y \<and> list_feq xs ys)"
| "list_feq [] (y # ys) = False"
| "list_feq (x # xs) [] = False"

definition all_le :: "pyfloat list \<Rightarrow> pyfloat list \<Rightarrow> bool" where
  "all_le xs ys = list_all (\<lambda>(v0, v1). fle v0 v1) (zip xs ys)"

definition normalized :: "pyfloat option list \<Rightarrow> StudyDirection list \<Rightarrow> pyfloat list" where
  "normalized vs directions = map (\<lambda>(v, d). normalize_value v d) (zip vs directions)"

text \<open>
  \<open>dominates\<close> follows \<^verbatim>\<open>_dominates\<close> branch by branch: the two state tests, the two
  assertions, the two length tests, the equality test and the final \<^verbatim>\<open>all\<close>.
\<close>

definition dominates ::
  "FrozenTrial \<Rightarrow> FrozenTrial \<Rightarrow> StudyDirection list \<Rightarrow> error + bool" where
  "dominates trial0 trial1 directions =
     (if state trial0 \<noteq> COMPLETE then Inr False
      else if state trial1 \<noteq> COMPLETE then Inr True
      else case values trial0 of
        None \<Rightarrow> Inl AssertionError
      | Some values0 \<Rightarrow>
        (case values trial1 of
           None \<Rightarrow> Inl AssertionError
         | Some values1 \<Rightarrow>
             if length values0 \<noteq> length values1 then Inl ValueError
             else if length values0 \<noteq> length directions then Inl ValueError
             else let normalized_values0 = normalized values0 directions;
                      normalized_values1 = normalized values1 directions
                  in if list_feq normalized_values0 normalized_values1 then Inr False
                     else Inr (all_le normalized_values0 normalized_values1)))"

section \<open>Non-domination ranking\<close>

text \<open>
  The objective matrix is a two-dimensional array: a list of rows of one common length
  (\<open>rectangular\<close>).  \<open>dominated_by r\<^sub>i r\<^sub>j\<close> is the entry \<open>[i, j]\<close> of the domination matrix:
  \<^verbatim>\<open>np.all(ov[i] >= ov[j]) & np.any(ov[i] > ov[j])\<close>, that is, row \<open>j\<close> dominates row \<open>i\<close>.
\<close>

definition rectangular :: "'a list list \<Rightarrow> bool" where
  "rectangular ov = (\<forall>r \<in> set ov. \<forall>r' \<in> set ov. length r = length r')"

definition dominated_by :: "pyfloat list \<Rightarrow> pyfloat list \<Rightarrow> bool" where
  "dominated_by ri rj =
     (list_all (\<lambda>(a, b). fge a b) (zip ri rj) \<and> list_ex (\<lambda>(a, b). fgt a b) (zip ri rj))"

definition domination_mat :: "pyfloat list list \<Rightarrow> bool list list" where
  "domination_mat ov = map (\<lambda>ri. map (\<lambda>rj. dominated_by ri rj) ov) ov"

text \<open>\<^verbatim>\<open>np.nonzero\<close> of a vector and of a matrix (row-major order of the index pairs).\<close>

definition nonzero1 :: "bool list \<Rightarrow> nat list" where
  "nonzero1 bs = filter (\<lambda>i. bs ! i) [0..<length bs]"

definition nonzero2 :: "bool list list \<Rightarrow> (nat \<times> nat) list" where
  "nonzero2 m = concat (map (\<lambda>i. map (\<lambda>j. (i, j)) (nonzero1 (m ! i))) [0..<length m])"

text \<open>
  \<^verbatim>\<open>domination_map\<close> is a \<^verbatim>\<open>defaultdict(list)\<close>: a total function whose default is the
  empty list.
\<close>

definition domination_map :: "bool list list \<Rightarrow> nat \<Rightarrow> nat list" where
  "domination_map m =
     fold (\<lambda>(dominated_idx, dominating_idx) dm.
             dm(dominating_idx := dm dominating_idx @ [dominated_idx]))
          (nonzero2 m) (\<lambda>_. [])"

record peel_state =
  ranks :: "int list"
  dominated_count :: "int list"
  rank :: int
  ranked_idx_num :: int

text \<open>\<^verbatim>\<open>a[idxs] = v\<close> and \<^verbatim>\<open>a[idxs] -= 1\<close> (gather, subtract, scatter) on an integer array.\<close>

definition idx_assign :: "nat list \<Rightarrow> int \<Rightarrow> int list \<Rightarrow> int list" where
  "idx_assign idxs v a = fold (\<lambda>i a. a[i := v]) idxs a"

definition idx_decr :: "nat list \<Rightarrow> int list \<Rightarrow> int list" where
  "idx_decr idxs a = fold (\<lambda>(i, v) a. a[i := v]) (zip idxs (map (\<lambda>i. a ! i - 1) idxs)) a"

text \<open>One iteration of the \<^verbatim>\<open>while\<close> loop of \<^verbatim>\<open>_calculate_nondomination_rank\<close>.\<close>

definition peel_step :: "(nat \<Rightarrow> nat list) \<Rightarrow> peel_state \<Rightarrow> peel_state" where
  "peel_step dmap s =
     (let non_dominated_idxs = nonzero1 (map (\<lambda>c. c = 0) (dominated_count s));
          ranked_idx_num' = ranked_idx_num s + int (length non_dominated_idxs);
          rank' = rank s + 1;
          ranks' = idx_assign non_dominated_idxs rank' (ranks s);
          dc1 = idx_assign non_dominated_idxs (- 1) (dominated_count s);
          dc2 = fold (\<lambda>non_dominated_idx dc. idx_decr (dmap non_dominated_idx) dc)
                  non_dominated_idxs dc1
      in \<lparr>ranks = ranks', dominated_count = dc2, rank = rank',
          ranked_idx_num = ranked_idx_num'\<rparr>)"

text \<open>The loop itself; it need not terminate, and then its value is \<open>None\<close>.\<close>

partial_function (option) peel_loop ::
  "(nat \<Rightarrow> nat list) \<Rightarrow> int \<Rightarrow> peel_state \<Rightarrow> peel_state option" where
  "peel_loop dmap n_below s =
     (if ranked_idx_num s < n_below then peel_loop dmap n_below (peel_step dmap s)
      else Some s)"

declare peel_loop.simps [code]

definition peel_init :: "bool list list \<Rightarrow> peel_state" where
  "peel_init mat =
     \<lparr>ranks = replicate (length mat) (- 1),
      dominated_count = map (\<lambda>row. int (length (filter (\<lambda>b. b) row))) mat,
      rank = - 1, ranked_idx_num = 0\<rparr>"

text \<open>\<^verbatim>\<open>n_below or len(objective_values)\<close>: \<^verbatim>\<open>None\<close> and \<^verbatim>\<open>0\<close> are both falsy.\<close>

definition n_below_or :: "int option \<Rightarrow> nat \<Rightarrow> int" where
  "n_below_or n_below n = (case n_below of None \<Rightarrow> int n | Some b \<Rightarrow> if b = 0 then int n else b)"

definition calculate_nondomination_rank ::
  "pyfloat list list \<Rightarrow> int option \<Rightarrow> (int list \<times> int) option" where
  "calculate_nondomination_rank objective_values n_below =
     (let domination_mat = domination_mat objective_values;
          dmap = domination_map domination_mat
      in map_option (\<lambda>s. (ranks s, rank s))
           (peel_loop dmap (n_below_or n_below (length objective_values))
              (peel_init domination_mat)))"

section \<open>Constraint-aware ranking\<close>

text \<open>
  Indexing an array with a boolean mask selects the positions \<^verbatim>\<open>np.nonzero(mask)\<close>, in
  order; \<^verbatim>\<open>a[mask] += vals\<close> adds the \<open>k\<close>-th value at the \<open>k\<close>-th selected position.
\<close>

definition mask_select :: "bool list \<Rightarrow> 'a list \<Rightarrow> 'a list" where
  "mask_select msk xs = map (\<lambda>i. xs ! i) (nonzero1 msk)"

definition mask_add :: "bool list \<Rightarrow> int list \<Rightarrow> int list \<Rightarrow> int list" where
  "mask_add msk a vals = fold (\<lambda>(i, v) a. a[i := a ! i + v]) (zip (nonzero1 msk) vals) a"

text \<open>
  \<^verbatim>\<open>_fast_non_dominated_sort\<close>.  The outer \<open>option\<close> is \<open>None\<close> when one of the ranking
  loops does not terminate; \<open>Inl ValueError\<close> is the \<^verbatim>\<open>raise ValueError\<close> of the length test.
\<close>

definition fast_non_dominated_sort ::
  "pyfloat list list \<Rightarrow> pyfloat list option \<Rightarrow> int option \<Rightarrow> (error + int list) option" where
  "fast_non_dominated_sort objective_values penalty n_below =
     (case penalty of
        None \<Rightarrow>
          (case calculate_nondomination_rank objective_values n_below of
             None \<Rightarrow> None
           | Some (rs, _) \<Rightarrow> Some (Inr rs))
      | Some penalty \<Rightarrow>
          if length penalty \<noteq> length objective_values then Some (Inl ValueError)
          else
            let nondomination_rank = replicate (length objective_values) 0;
                is_nan = map isnan penalty;
                is_feasible = map (\<lambda>p. \<not> isnan p \<and> fle p (Fin 0)) penalty
            in case calculate_nondomination_rank
                      (mask_select is_feasible objective_values) n_below of
                 None \<Rightarrow> None
               | Some (rs_feasible, feasible_bottom_rank) \<Rightarrow>
                   let nondomination_rank = mask_add is_feasible nondomination_rank rs_feasible;
                       is_infeasible = map (\<lambda>p. \<not> isnan p \<and> fgt p (Fin 0)) penalty
                   in case calculate_nondomination_rank
                             (map (\<lambda>p. [p]) (mask_select is_infeasible penalty)) n_below of
                        None \<Rightarrow> None
                      | Some (rs_infeasible, infeasible_bottom_rank) \<Rightarrow>
                          let nondomination_rank =
                                mask_add is_infeasible nondomination_rank
                                  (map (\<lambda>r. r + (feasible_bottom_rank + 1)) rs_infeasible)
                          in case calculate_nondomination_rank
                                    (mask_select is_nan objective_values) n_below of
                               None \<Rightarrow> None
                             | Some (rs_nan, _) \<Rightarrow>
                                 Some (Inr (mask_add is_nan nondomination_rank
                                   (map (\<lambda>r. r + (feasible_bottom_rank + 1)
                                                 + (infeasible_bottom_rank + 1)) rs_nan))))"

section \<open>Pareto fronts\<close>

text \<open>
  \<^verbatim>\<open>_get_pareto_front_trials_nd\<close>: the inner loop stops at the first dominating trial and
  an exception of \<^verbatim>\<open>_dominates\<close> leaves both loops.
\<close>

fun any_dominates ::
  "FrozenTrial list \<Rightarrow> FrozenTrial \<Rightarrow> StudyDirection list \<Rightarrow> error + bool" where
  "any_dominates [] trial directions = Inr False"
| "any_dominates (other # others) trial directions =
     (case dominates other trial directions of
        Inl e \<Rightarrow> Inl e
      | Inr d \<Rightarrow> if d then Inr True else any_dominates others trial directions)"

fun nd_loop ::
  "FrozenTrial list \<Rightarrow> FrozenTrial list \<Rightarrow> StudyDirection list \<Rightarrow> error + FrozenTrial list" where
  "nd_loop trials [] directions = Inr []"
| "nd_loop trials (trial # rest) directions =
     (case any_dominates trials trial directions of
        Inl e \<Rightarrow> Inl e
      | Inr dominated \<Rightarrow>
          (case nd_loop trials rest directions of
             Inl e \<Rightarrow> Inl e
           | Inr pareto_front \<Rightarrow> Inr (if dominated then pareto_front else trial # pareto_front)))"

definition get_pareto_front_trials_nd ::
  "FrozenTrial list \<Rightarrow> StudyDirection list \<Rightarrow> error + FrozenTrial list" where
  "get_pareto_front_trials_nd trials directions =
     (let trials = filter (\<lambda>t. state t = COMPLETE) trials
      in nd_loop trials trials directions)"

text \<open>
  \<^verbatim>\<open>list.sort(key=...)\<close> belongs to the language: it computes all keys first, is stable and
  compares keys with \<^verbatim>\<open><\<close> only.  \<open>py_sort\<close> inserts each element, in input order, before
  the first element of the sorted prefix whose key is greater.  Whenever \<^verbatim>\<open><\<close> orders the
  keys totally this is the stable sort, whatever algorithm the runtime uses; a list in which
  no key is less than an earlier key is left as it is.
\<close>

fun insort_lt :: "('k \<Rightarrow> 'k \<Rightarrow> bool) \<Rightarrow> 'k \<times> 'a \<Rightarrow> ('k \<times> 'a) list \<Rightarrow> ('k \<times> 'a) list" where
  "insort_lt lt x [] = [x]"
| "insort_lt lt x (y # ys) =
     (if lt (fst x) (fst y) then x # y # ys else y # insort_lt lt x ys)"

definition py_sort :: "('k \<Rightarrow> 'k \<Rightarrow> bool) \<Rightarrow> ('k \<times> 'a) list \<Rightarrow> ('k \<times> 'a) list" where
  "py_sort lt xs = foldl (\<lambda>acc x. insort_lt lt x acc) [] xs"

fun keyed :: "('a \<Rightarrow> error + 'k) \<Rightarrow> 'a list \<Rightarrow> error + ('k \<times> 'a) list" where
  "keyed key [] = Inr []"
| "keyed key (x # xs) =
     (case key x of
        Inl e \<Rightarrow> Inl e
      | Inr k \<Rightarrow> (case keyed key xs of Inl e \<Rightarrow> Inl e | Inr ks \<Rightarrow> Inr ((k, x) # ks)))"

text \<open>
  The sort key of the 2D algorithm; \<^verbatim>\<open>trial.values[0]\<close> raises TypeError when the values
  are \<^verbatim>\<open>None\<close> and IndexError when the list is too short.  Tuples compare at the first
  position where they are not equal.  There too Python first tests whether the two items
  are the same object, which matters only when a NaN meets itself: never for keys without
  NaN, and never in a list with a single NaN.
\<close>

definition sort_key_2d :: "StudyDirection list \<Rightarrow> FrozenTrial \<Rightarrow> error + pyfloat \<times> pyfloat" where
  "sort_key_2d directions trial =
     (case values trial of
        None \<Rightarrow> Inl TypeError
      | Some vs \<Rightarrow>
          if length vs < 1 \<or> length directions < 1 \<or> length vs < 2 \<or> length directions < 2
          then Inl IndexError
          else Inr (normalize_value (vs ! 0) (directions ! 0),
                    normalize_value (vs ! 1) (directions ! 1)))"

definition key_lt :: "pyfloat \<times> pyfloat \<Rightarrow> pyfloat \<times> pyfloat \<Rightarrow> bool" where
  "key_lt a b =
     (if \<not> feq (fst a) (fst b) then flt (fst a) (fst b)
      else if \<not> feq (snd a) (snd b) then flt (snd a) (snd b)
      else False)"

text \<open>
  The sweep of \<^verbatim>\<open>_get_pareto_front_trials_2d\<close>: \<open>sweep_2d last rest\<close> is the part of the
  front built from \<open>last\<close> on.
\<close>

fun sweep_2d ::
  "FrozenTrial \<Rightarrow> FrozenTrial list \<Rightarrow> StudyDirection list \<Rightarrow> error + FrozenTrial list" where
  "sweep_2d last_nondominated_trial [] directions = Inr [last_nondominated_trial]"
| "sweep_2d last_nondominated_trial (trial # rest) directions =
     (case dominates last_nondominated_trial trial directions of
        Inl e \<Rightarrow> Inl e
      | Inr d \<Rightarrow>
          if d then sweep_2d last_nondominated_trial rest directions
          else (case sweep_2d trial rest directions of
                  Inl e \<Rightarrow> Inl e
                | Inr pareto_front \<Rightarrow> Inr (last_nondominated_trial # pareto_front)))"

definition get_pareto_front_trials_2d ::
  "FrozenTrial list \<Rightarrow> StudyDirection list \<Rightarrow> error + FrozenTrial list" where
  "get_pareto_front_trials_2d trials directions =
     (let trials = filter (\<lambda>t. state t = COMPLETE) trials
      in if length trials = 0 then Inr []
         else case keyed (sort_key_2d directions) trials of
           Inl e \<Rightarrow> Inl e
         | Inr ks \<Rightarrow>
             (case map snd (py_sort key_lt ks) of
                [] \<Rightarrow> Inr []
              | first # rest \<Rightarrow>
                  (case sweep_2d first rest directions of
                     Inl e \<Rightarrow> Inl e
                   | Inr pareto_front \<Rightarrow>
                       Inr (map snd (py_sort (<) (map (\<lambda>t. (number t, t)) pareto_front))))))"

section \<open>Notions used in the proofs\<close>

subsection \<open>The ranking loop\<close>

text \<open>
  \<open>dom_rel ov i j\<close>: row \<open>j\<close> of the matrix dominates row \<open>i\<close>.  \<open>peel_front\<close> is the set of
  rows an iteration ranks: the unranked rows all of whose dominators are ranked.
  \<open>peel_inv\<close> relates the two arrays and the two counters of the loop to the set of ranked
  rows; \<open>dmap_spec\<close> says what the adjacency map holds.
\<close>

definition dom_rel :: "pyfloat list list \<Rightarrow> nat \<Rightarrow> nat \<Rightarrow> bool" where
  "dom_rel ov i j = dominated_by (ov ! i) (ov ! j)"

definition dmap_spec :: "nat \<Rightarrow> (nat \<Rightarrow> nat \<Rightarrow> bool) \<Rightarrow> (nat \<Rightarrow> nat list) \<Rightarrow> bool" where
  "dmap_spec n D dmap = (\<forall>j<n. set (dmap j) = {i. i < n \<and> D i j})"

definition strict_order :: "nat \<Rightarrow> (nat \<Rightarrow> nat \<Rightarrow> bool) \<Rightarrow> bool" where
  "strict_order n D =
     ((\<forall>i<n. \<not> D i i) \<and> (\<forall>i<n. \<forall>j<n. \<forall>k<n. D i j \<longrightarrow> D j k \<longrightarrow> D i k))"

definition peel_front :: "nat \<Rightarrow> (nat \<Rightarrow> nat \<Rightarrow> bool) \<Rightarrow> peel_state \<Rightarrow> nat set" where
  "peel_front n D s =
     {i. i < n \<and> ranks s ! i = - 1 \<and> (\<forall>j<n. D i j \<longrightarrow> ranks s ! j \<noteq> - 1)}"

definition peel_inv :: "nat \<Rightarrow> (nat \<Rightarrow> nat \<Rightarrow> bool) \<Rightarrow> peel_state \<Rightarrow> bool" where
  "peel_inv n D s =
     (length (ranks s) = n \<and> length (dominated_count s) = n \<and>
      (\<forall>i<n. ranks s ! i \<noteq> - 1 \<longrightarrow> dominated_count s ! i = - 1) \<and>
      (\<forall>i<n. ranks s ! i = - 1 \<longrightarrow>
         dominated_count s ! i = int (card {j. j < n \<and> D i j \<and> ranks s ! j = - 1})) \<and>
      (\<forall>i<n. \<forall>j<n. D i j \<longrightarrow> ranks s ! i \<noteq> - 1 \<longrightarrow> ranks s ! j \<noteq> - 1) \<and>
      ranked_idx_num s = int (card {i. i < n \<and> ranks s ! i \<noteq> - 1}) \<and>
      (\<forall>i<n. ranks s ! i \<noteq> - 1 \<longrightarrow> 0 \<le> ranks s ! i \<and> ranks s ! i \<le> rank s) \<and>
      - 1 \<le> rank s)"

text \<open>The state of the loop after \<open>k\<close> iterations on the matrix \<open>ov\<close>.\<close>

definition peel_iterate :: "pyfloat list list \<Rightarrow> nat \<Rightarrow> peel_state" where
  "peel_iterate ov k =
     (peel_step (domination_map (domination_mat ov)) ^^ k) (peel_init (domination_mat ov))"

text \<open>
  The matrix of normalised value vectors of a list of trials, one row per trial, on which
  the ranking is compared with the Pareto front.
\<close>

definition normalized_matrix :: "FrozenTrial list \<Rightarrow> StudyDirection list \<Rightarrow> pyfloat list list" where
  "normalized_matrix trials directions =
     map (\<lambda>t. normalized (case values t of None \<Rightarrow> [] | Some vs \<Rightarrow> vs) directions) trials"

subsection \<open>The 2D sweep\<close>

text \<open>
  \<open>good_trial\<close>: a COMPLETE trial with exactly two values, neither of them NaN (a missing
  value is allowed).  \<open>key_of\<close> is the sort key of such a trial, \<open>key_ok\<close> says that a key
  has no NaN, and \<open>key_dom p q\<close> that the key \<open>p\<close> is at most \<open>q\<close> in both coordinates and
  differs from it.
\<close>

definition good_trial :: "FrozenTrial \<Rightarrow> bool" where
  "good_trial t =
     (state t = COMPLETE \<and> (\<exists>a b. values t = Some [a, b] \<and> a \<noteq> Some NaN \<and> b \<noteq> Some NaN))"

definition key_of :: "StudyDirection list \<Rightarrow> FrozenTrial \<Rightarrow> pyfloat \<times> pyfloat" where
  "key_of directions t =
     (let vs = (case values t of None \<Rightarrow> [] | Some vs \<Rightarrow> vs)
      in (normalize_value (vs ! 0) (directions ! 0), normalize_value (vs ! 1) (directions ! 1)))"

definition key_ok :: "pyfloat \<times> pyfloat \<Rightarrow> bool" where
  "key_ok p = (\<not> isnan (fst p) \<and> \<not> isnan (snd p))"

definition key_dom :: "pyfloat \<times> pyfloat \<Rightarrow> pyfloat \<times> pyfloat \<Rightarrow> bool" where
  "key_dom p q = (fle (fst p) (fst q) \<and> fle (snd p) (snd q) \<and> p \<noteq> q)"

section \<open>Properties of the comparisons\<close>


lemma fle_not_nan: "fle a b \<Longrightarrow> \<not> isnan a \<and> \<not> isnan b"
  by (cases a; cases b) simp_all

lemma fle_refl: "\<not> isnan a \<Longrightarrow> fle a a"
  by (cases a) simp_all

lemma fle_trans: "fle a b \<Longrightarrow> fle b c \<Longrightarrow> fle a c"
  by (cases a; cases b; cases c) simp_all

lemma fle_antisym: "fle a b \<Longrightarrow> fle b a \<Longrightarrow> a = b"
  by (cases a; cases b) simp_all

lemma fle_total: "\<not> isnan a \<Longrightarrow> \<not> isnan b \<Longrightarrow> fle a b \<or> fle b a"
  by (cases a; cases b) auto

lemma flt_iff: "flt a b \<longleftrightarrow> fle a b \<and> a \<noteq> b"
  by (cases a; cases b) auto

lemma flt_iff_not_le: "flt a b \<longleftrightarrow> fle a b \<and> \<not> fle b a"
  by (cases a; cases b) auto

lemma isnan_fneg: "isnan (fneg a) = isnan a"
  by (cases a) simp_all

lemma dominated_by_nth:
  assumes "length ri = length rj"
  shows "dominated_by ri rj \<longleftrightarrow>
         (\<forall>k < length ri. fle (rj ! k) (ri ! k)) \<and> (\<exists>k < length ri. flt (rj ! k) (ri ! k))"
  using assms
  by (auto simp: dominated_by_def list_all_iff list_ex_iff fge_def fgt_def set_zip) 

lemma dominated_by_irrefl: "\<not> dominated_by r r"
  by (auto simp: dominated_by_def list_ex_iff fgt_def flt_iff set_zip)

lemma dominated_by_trans:
  assumes "length ri = length rj" "length rj = length rk"
    and "dominated_by ri rj" "dominated_by rj rk"
  shows "dominated_by ri rk"
proof -
  have a: "\<forall>k < length ri. fle (rj ! k) (ri ! k)" and b: "\<forall>k < length ri. fle (rk ! k) (rj ! k)"
    and c: "\<exists>k < length ri. flt (rj ! k) (ri ! k)"
    using assms by (simp_all add: dominated_by_nth)
  have le: "\<forall>k < length ri. fle (rk ! k) (ri ! k)"
    using a b fle_trans by blast
  from c obtain k where k: "k < length ri" "flt (rj ! k) (ri ! k)" by blast
  have "fle (rk ! k) (rj ! k)" using b k by simp
  with k have "flt (rk ! k) (ri ! k)"
    by (metis flt_iff_not_le fle_trans)
  with le k show ?thesis
    using assms by (auto simp: dominated_by_nth)
qed

lemma dominated_by_nan:
  assumes "length ri = length rj" "\<exists>x \<in> set ri. isnan x"
  shows "\<not> dominated_by ri rj \<and> \<not> dominated_by rj ri"
proof -
  from assms(2) obtain i where i: "i < length ri" "isnan (ri ! i)"
    by (auto simp: in_set_conv_nth)
  then have "\<not> fle (rj ! i) (ri ! i)" "\<not> fle (ri ! i) (rj ! i)"
    using fle_not_nan by blast+
  with i assms(1) show ?thesis
    by (auto simp: dominated_by_nth)
qed

subsection \<open>Array updates\<close>

lemma length_idx_assign [simp]: "length (idx_assign idxs v a) = length a"
  unfolding idx_assign_def by (induction idxs arbitrary: a) simp_all

lemma nth_idx_assign:
  "i < length a \<Longrightarrow> idx_assign idxs v a ! i = (if i \<in> set idxs then v else a ! i)"
  unfolding idx_assign_def
  by (induction idxs arbitrary: a) (auto simp: nth_list_update)

lemma length_scatter [simp]:
  "length (fold (\<lambda>(i, v) a. a[i := v]) ps a) = length a"
  by (induction ps arbitrary: a) auto

lemma nth_scatter:
  "k < length a \<Longrightarrow>
   fold (\<lambda>(i, v) a. a[i := v]) (zip idxs (map f idxs)) a ! k =
     (if k \<in> set idxs then f k else a ! k)"
  by (induction idxs arbitrary: a) (auto simp: nth_list_update)

lemma length_idx_decr [simp]: "length (idx_decr idxs a) = length a"
  unfolding idx_decr_def by simp

lemma nth_idx_decr:
  "k < length a \<Longrightarrow> idx_decr idxs a ! k = (if k \<in> set idxs then a ! k - 1 else a ! k)"
  unfolding idx_decr_def by (simp add: nth_scatter)

lemma nonzero1_map: "nonzero1 (map P xs) = filter (\<lambda>i. P (xs ! i)) [0..<length xs]"
  unfolding nonzero1_def by (auto intro: filter_cong)

lemma fold_domination_map:
  "fold (\<lambda>(i, j) dm. dm(j := dm j @ [i])) ps dm0 j =
     dm0 j @ map fst (filter (\<lambda>p. snd p = j) ps)"
  by (induction ps arbitrary: dm0) (auto split: prod.splits)

lemma map_fst_filter_Pair:
  "distinct xs \<Longrightarrow>
   map fst (filter (\<lambda>p. snd p = j) (map (Pair i) xs)) = (if j \<in> set xs then [i] else [])"
  by (induction xs) auto

lemma distinct_nonzero1 [simp]: "distinct (nonzero1 bs)"
  unfolding nonzero1_def by simp

lemma set_nonzero1: "set (nonzero1 bs) = {i. i < length bs \<and> bs ! i}"
  unfolding nonzero1_def by auto

lemma map_fst_filter_concat:
  "map fst (filter (\<lambda>p. snd p = j) (concat (map (\<lambda>i. map (Pair i) (nonzero1 (m ! i))) is))) =
     filter (\<lambda>i. j \<in> set (nonzero1 (m ! i))) is"
  by (induction "is") (simp_all add: map_fst_filter_Pair)

lemma domination_map_eq:
  "domination_map m j = filter (\<lambda>i. j < length (m ! i) \<and> m ! i ! j) [0..<length m]"
proof -
  have "domination_map m j =
        map fst (filter (\<lambda>p. snd p = j)
          (concat (map (\<lambda>i. map (Pair i) (nonzero1 (m ! i))) [0..<length m])))"
    unfolding domination_map_def nonzero2_def by (simp add: fold_domination_map)
  then show ?thesis
    by (simp add: map_fst_filter_concat set_nonzero1)
qed

subsection \<open>One iteration\<close>

lemma fold_idx_decr:
  assumes "dmap_spec n D dmap" "distinct js" "set js \<subseteq> {..<n}" "length c = n" "i < n"
  shows "fold (\<lambda>j c. idx_decr (dmap j) c) js c ! i = c ! i - int (card {j \<in> set js. D i j})"
  using assms(2-4)
proof (induction js arbitrary: c)
  case Nil
  then show ?case by simp
next
  case (Cons j js)
  let ?c = "idx_decr (dmap j) c"
  have jn: "j < n" and jnot: "j \<notin> set js" using Cons.prems by auto
  have c: "?c ! i = c ! i - (if D i j then 1 else 0)"
    using assms(1,5) jn Cons.prems(3) by (simp add: nth_idx_decr dmap_spec_def)
  have ih: "fold (\<lambda>j c. idx_decr (dmap j) c) js ?c ! i = ?c ! i - int (card {j \<in> set js. D i j})"
    using Cons.prems by (intro Cons.IH) auto
  have "{j' \<in> set (j # js). D i j'} =
        (if D i j then insert j {j' \<in> set js. D i j'} else {j' \<in> set js. D i j'})"
    by auto
  then have "int (card {j' \<in> set (j # js). D i j'}) =
             (if D i j then 1 else 0) + int (card {j' \<in> set js. D i j'})"
    using jnot by simp
  with c ih show ?case by simp
qed

lemma length_fold_idx_decr [simp]:
  "length (fold (\<lambda>j c. idx_decr (dmap j) c) js c) = length c"
  by (induction js arbitrary: c) simp_all

lemma peel_front_zero:
  assumes "peel_inv n D s" "i < n"
  shows "dominated_count s ! i = 0 \<longleftrightarrow> i \<in> peel_front n D s"
proof (cases "ranks s ! i = - 1")
  case True
  have fin: "finite {j. j < n \<and> D i j \<and> ranks s ! j = - 1}" by simp
  have "dominated_count s ! i = int (card {j. j < n \<and> D i j \<and> ranks s ! j = - 1})"
    using assms True by (simp add: peel_inv_def)
  then have "dominated_count s ! i = 0 \<longleftrightarrow> {j. j < n \<and> D i j \<and> ranks s ! j = - 1} = {}"
    using fin by simp
  then show ?thesis using True assms(2) by (auto simp: peel_front_def)
next
  case False
  then have "dominated_count s ! i = - 1" using assms by (simp add: peel_inv_def)
  then show ?thesis using False by (simp add: peel_front_def)
qed

lemma peel_step_idxs:
  assumes "peel_inv n D s"
  shows "set (nonzero1 (map (\<lambda>c. c = 0) (dominated_count s))) = peel_front n D s"
proof -
  have len: "length (dominated_count s) = n" using assms by (simp add: peel_inv_def)
  have "set (nonzero1 (map (\<lambda>c. c = 0) (dominated_count s))) =
        {i. i < n \<and> dominated_count s ! i = 0}"
    by (auto simp: set_nonzero1 len)
  also have "\<dots> = peel_front n D s"
    using peel_front_zero[OF assms] by (auto simp: peel_front_def)
  finally show ?thesis .
qed

lemma peel_step_ranks:
  assumes "peel_inv n D s" "i < n"
  shows "ranks (peel_step dmap s) ! i =
         (if i \<in> peel_front n D s then rank s + 1 else ranks s ! i)"
proof -
  have "length (ranks s) = n" using assms by (simp add: peel_inv_def)
  then show ?thesis
    using assms(2) peel_step_idxs[OF assms(1)]
    by (simp add: peel_step_def Let_def nth_idx_assign)
qed

lemma peel_step_simps [simp]:
  "length (ranks (peel_step dmap s)) = length (ranks s)"
  "length (dominated_count (peel_step dmap s)) = length (dominated_count s)"
  "rank (peel_step dmap s) = rank s + 1"
  by (simp_all add: peel_step_def Let_def)

lemma peel_step_ranked:
  assumes "peel_inv n D s"
  shows "ranked_idx_num (peel_step dmap s) = ranked_idx_num s + int (card (peel_front n D s))"
proof -
  have "length (nonzero1 (map (\<lambda>c. c = 0) (dominated_count s))) = card (peel_front n D s)"
    using peel_step_idxs[OF assms] distinct_card[OF distinct_nonzero1] by metis
  then show ?thesis by (simp add: peel_step_def Let_def)
qed

lemma peel_step_count:
  assumes "peel_inv n D s" "dmap_spec n D dmap" "i < n"
  shows "dominated_count (peel_step dmap s) ! i =
         (if i \<in> peel_front n D s then - 1 else dominated_count s ! i)
           - int (card {j \<in> peel_front n D s. D i j})"
proof -
  let ?idxs = "nonzero1 (map (\<lambda>c. c = 0) (dominated_count s))"
  have len: "length (dominated_count s) = n" using assms by (simp add: peel_inv_def)
  have sub: "set ?idxs \<subseteq> {..<n}" using peel_step_idxs[OF assms(1)] by (auto simp: peel_front_def)
  have "dominated_count (peel_step dmap s) ! i =
        idx_assign ?idxs (- 1) (dominated_count s) ! i - int (card {j \<in> set ?idxs. D i j})"
    unfolding peel_step_def Let_def
    using fold_idx_decr[OF assms(2) distinct_nonzero1 sub _ assms(3)] len by simp
  then show ?thesis
    using peel_step_idxs[OF assms(1)] len assms(3) by (simp add: nth_idx_assign)
qed

lemma peel_step_unranked:
  assumes "peel_inv n D s" "i < n"
  shows "ranks (peel_step dmap s) ! i = - 1 \<longleftrightarrow> ranks s ! i = - 1 \<and> i \<notin> peel_front n D s"
proof -
  have "- 1 \<le> rank s" using assms by (simp add: peel_inv_def)
  then have "rank s + 1 \<noteq> - 1" by simp
  then show ?thesis
    using peel_step_ranks[OF assms, of dmap] by (auto simp: peel_front_def)
qed

lemma peel_front_no_dominator:
  assumes "peel_inv n D s" "i < n" "i \<in> peel_front n D s \<or> ranks s ! i \<noteq> - 1"
  shows "{j \<in> peel_front n D s. D i j} = {}"
  using assms by (auto simp: peel_front_def peel_inv_def)

lemma peel_step_inv:
  assumes inv: "peel_inv n D s" and dm: "dmap_spec n D dmap"
  shows "peel_inv n D (peel_step dmap s)"
proof -
  let ?s = "peel_step dmap s"
  let ?F = "peel_front n D s"
  note un = peel_step_unranked[OF inv, of _ dmap]
  have len: "length (ranks ?s) = n" "length (dominated_count ?s) = n"
    using inv by (simp_all add: peel_inv_def)
  have rk: "- 1 \<le> rank s" using inv by (simp add: peel_inv_def)
  have a: "dominated_count ?s ! i = - 1" if "i < n" "ranks ?s ! i \<noteq> - 1" for i
  proof -
    have d: "i \<in> ?F \<or> ranks s ! i \<noteq> - 1" using un that by blast
    have "{j \<in> ?F. D i j} = {}" by (rule peel_front_no_dominator[OF inv that(1) d])
    then have "card {j \<in> ?F. D i j} = 0" by (simp only: card.empty)
    moreover have "i \<notin> ?F \<Longrightarrow> dominated_count s ! i = - 1"
      using d inv that(1) by (simp add: peel_inv_def)
    ultimately show ?thesis
      using peel_step_count[OF inv dm that(1)] by simp
  qed
  have b: "dominated_count ?s ! i = int (card {j. j < n \<and> D i j \<and> ranks ?s ! j = - 1})"
    if "i < n" "ranks ?s ! i = - 1" for i
  proof -
    have i: "ranks s ! i = - 1" "i \<notin> ?F" using un that by blast+
    let ?U = "{j. j < n \<and> D i j \<and> ranks s ! j = - 1}"
    have old: "dominated_count s ! i = int (card ?U)"
      using inv that(1) i by (simp add: peel_inv_def)
    have sub: "{j \<in> ?F. D i j} \<subseteq> ?U" by (auto simp: peel_front_def)
    have "{j. j < n \<and> D i j \<and> ranks ?s ! j = - 1} = ?U - {j \<in> ?F. D i j}"
      using un by auto
    then have "card {j. j < n \<and> D i j \<and> ranks ?s ! j = - 1} = card ?U - card {j \<in> ?F. D i j}"
      using sub by (simp add: card_Diff_subset finite_subset)
    moreover have "card {j \<in> ?F. D i j} \<le> card ?U"
      using sub by (simp add: card_mono)
    ultimately show ?thesis
      using peel_step_count[OF inv dm that(1)] i old by simp
  qed
  have c: "ranks ?s ! j \<noteq> - 1" if "i < n" "j < n" "D i j" "ranks ?s ! i \<noteq> - 1" for i j
  proof -
    have "i \<in> ?F \<or> ranks s ! i \<noteq> - 1" using un that by blast
    then have "ranks s ! j \<noteq> - 1"
      using that inv by (auto simp: peel_front_def peel_inv_def)
    then show ?thesis using un that(2) by blast
  qed
  have d: "ranked_idx_num ?s = int (card {i. i < n \<and> ranks ?s ! i \<noteq> - 1})"
  proof -
    let ?R = "{i. i < n \<and> ranks s ! i \<noteq> - 1}"
    have "{i. i < n \<and> ranks ?s ! i \<noteq> - 1} = ?R \<union> ?F"
      using un by (auto simp: peel_front_def)
    moreover have "?R \<inter> ?F = {}" by (auto simp: peel_front_def)
    moreover have "finite ?F" by (simp add: peel_front_def)
    ultimately have "card {i. i < n \<and> ranks ?s ! i \<noteq> - 1} = card ?R + card ?F"
      by (simp add: card_Un_disjoint)
    then show ?thesis
      using peel_step_ranked[OF inv, of dmap] inv by (simp add: peel_inv_def)
  qed
  have e: "0 \<le> ranks ?s ! i \<and> ranks ?s ! i \<le> rank ?s" if "i < n" "ranks ?s ! i \<noteq> - 1" for i
  proof (cases "i \<in> ?F")
    case True
    then show ?thesis using peel_step_ranks[OF inv that(1), of dmap] rk by simp
  next
    case False
    then have "ranks ?s ! i = ranks s ! i" using peel_step_ranks[OF inv that(1), of dmap] by simp
    then show ?thesis using that inv by (auto simp: peel_inv_def)
  qed
  show ?thesis
    unfolding peel_inv_def using len a b c d e rk by auto
qed

lemma domination_mat_nth:
  "i < length ov \<Longrightarrow> j < length ov \<Longrightarrow> domination_mat ov ! i ! j = dom_rel ov i j"
  by (simp add: domination_mat_def dom_rel_def)

lemma length_domination_mat [simp]: "length (domination_mat ov) = length ov"
  by (simp add: domination_mat_def)

lemma length_domination_mat_row:
  "i < length ov \<Longrightarrow> length (domination_mat ov ! i) = length ov"
  by (simp add: domination_mat_def)

lemma peel_init_inv: "peel_inv (length ov) (dom_rel ov) (peel_init (domination_mat ov))"
proof -
  let ?n = "length ov"
  have "int (length (filter (\<lambda>b. b) (domination_mat ov ! i))) =
        int (card {j. j < ?n \<and> dom_rel ov i j \<and> replicate ?n (- 1 :: int) ! j = - 1})"
    if "i < ?n" for i
  proof -
    have "{j. j < ?n \<and> dom_rel ov i j \<and> replicate ?n (- 1 :: int) ! j = - 1} =
          {j. j < length (domination_mat ov ! i) \<and> domination_mat ov ! i ! j}"
      using that by (auto simp: length_domination_mat_row domination_mat_nth)
    then show ?thesis by (simp add: length_filter_conv_card)
  qed
  then show ?thesis
    by (simp add: peel_inv_def peel_init_def)
qed

lemma domination_map_spec:
  "dmap_spec (length ov) (dom_rel ov) (domination_map (domination_mat ov))"
  by (auto simp: dmap_spec_def domination_map_eq length_domination_mat_row domination_mat_nth)

lemma strict_order_dom_rel:
  assumes "rectangular ov"
  shows "strict_order (length ov) (dom_rel ov)"
proof -
  have len: "length (ov ! i) = length (ov ! j)" if "i < length ov" "j < length ov" for i j
    using assms that by (simp add: rectangular_def)
  show ?thesis
    unfolding strict_order_def dom_rel_def
    using dominated_by_irrefl dominated_by_trans len by blast
qed

subsection \<open>Progress\<close>

lemma peel_front_nonempty:
  assumes so: "strict_order n D" and i: "i < n" "ranks s ! i = - 1"
  shows "peel_front n D s \<noteq> {}"
  using i
proof (induction "card {j. j < n \<and> D i j}" arbitrary: i rule: less_induct)
  case less
  show ?case
  proof (cases "i \<in> peel_front n D s")
    case True
    then show ?thesis by blast
  next
    case False
    then obtain j where j: "j < n" "D i j" "ranks s ! j = - 1"
      using less.prems by (auto simp: peel_front_def)
    have "{k. k < n \<and> D j k} \<subseteq> {k. k < n \<and> D i k}"
      using so j less.prems(1) by (auto simp: strict_order_def)
    moreover have "j \<in> {k. k < n \<and> D i k}" "j \<notin> {k. k < n \<and> D j k}"
      using so j by (auto simp: strict_order_def)
    ultimately have "{k. k < n \<and> D j k} \<subset> {k. k < n \<and> D i k}" by blast
    then have "card {k. k < n \<and> D j k} < card {k. k < n \<and> D i k}"
      by (intro psubset_card_mono) simp_all
    then show ?thesis using less.hyps j by blast
  qed
qed

lemma peel_ranked_le:
  assumes "peel_inv n D s"
  shows "ranked_idx_num s \<le> int n"
proof -
  have "card {i. i < n \<and> ranks s ! i \<noteq> - 1} \<le> card {..<n}"
    by (intro card_mono) auto
  then show ?thesis using assms by (simp add: peel_inv_def)
qed

lemma peel_all_ranked:
  assumes "peel_inv n D s" "int n \<le> ranked_idx_num s" "i < n"
  shows "ranks s ! i \<noteq> - 1"
proof -
  have "card {i. i < n \<and> ranks s ! i \<noteq> - 1} = card {..<n}"
    using assms peel_ranked_le[OF assms(1)] by (simp add: peel_inv_def)
  moreover have "{i. i < n \<and> ranks s ! i \<noteq> - 1} \<subseteq> {..<n}" by auto
  ultimately have "{i. i < n \<and> ranks s ! i \<noteq> - 1} = {..<n}"
    by (intro card_subset_eq) simp_all
  then show ?thesis using assms(3) by blast
qed

lemma peel_step_progress:
  assumes "peel_inv n D s" "strict_order n D" "ranked_idx_num s < int n"
  shows "ranked_idx_num s < ranked_idx_num (peel_step dmap s)"
proof -
  have "\<exists>i<n. ranks s ! i = - 1"
  proof (rule ccontr)
    assume "\<not> (\<exists>i<n. ranks s ! i = - 1)"
    then have "{i. i < n \<and> ranks s ! i \<noteq> - 1} = {..<n}" by auto
    then have "ranked_idx_num s = int n" using assms(1) by (simp add: peel_inv_def)
    then show False using assms(3) by simp
  qed
  then have "peel_front n D s \<noteq> {}"
    using peel_front_nonempty[OF assms(2)] by blast
  moreover have "finite (peel_front n D s)" by (simp add: peel_front_def)
  ultimately have "0 < card (peel_front n D s)" by (simp add: card_gt_0_iff)
  then show ?thesis using peel_step_ranked[OF assms(1), of dmap] by simp
qed

subsection \<open>The loop as iteration\<close>

lemma peel_loop_funpow:
  assumes "\<forall>j<k. ranked_idx_num ((peel_step dmap ^^ j) s) < nb"
    and "\<not> ranked_idx_num ((peel_step dmap ^^ k) s) < nb"
  shows "peel_loop dmap nb s = Some ((peel_step dmap ^^ k) s)"
  using assms
proof (induction k arbitrary: s)
  case 0
  then show ?case by (simp add: peel_loop.simps)
next
  case (Suc k)
  have b: "ranked_idx_num s < nb" using Suc.prems(1) by force
  have "\<forall>j<k. ranked_idx_num ((peel_step dmap ^^ j) (peel_step dmap s)) < nb"
  proof (intro allI impI)
    fix j assume "j < k"
    then have "ranked_idx_num ((peel_step dmap ^^ Suc j) s) < nb" using Suc.prems(1) by blast
    then show "ranked_idx_num ((peel_step dmap ^^ j) (peel_step dmap s)) < nb"
      by (simp add: funpow_swap1)
  qed
  moreover have "\<not> ranked_idx_num ((peel_step dmap ^^ k) (peel_step dmap s)) < nb"
    using Suc.prems(2) by (simp add: funpow_swap1)
  ultimately have "peel_loop dmap nb (peel_step dmap s) = Some ((peel_step dmap ^^ k) (peel_step dmap s))"
    by (rule Suc.IH)
  then show ?case using b by (subst peel_loop.simps) (simp add: funpow_swap1)
qed

lemma peel_loop_Some:
  assumes "peel_loop dmap nb s = Some t"
  shows "\<exists>k. t = (peel_step dmap ^^ k) s \<and>
             (\<forall>j<k. ranked_idx_num ((peel_step dmap ^^ j) s) < nb) \<and> \<not> ranked_idx_num t < nb"
proof (rule peel_loop.raw_induct[where P = "\<lambda>dmap nb s t. \<exists>k. t = (peel_step dmap ^^ k) s \<and>
             (\<forall>j<k. ranked_idx_num ((peel_step dmap ^^ j) s) < nb) \<and> \<not> ranked_idx_num t < nb",
             OF _ assms])
  fix loop :: "(nat \<Rightarrow> nat list) \<Rightarrow> int \<Rightarrow> peel_state \<Rightarrow> peel_state option"
    and dmap nb s t
  assume IH: "\<And>dmap nb s t. loop dmap nb s = Some t \<Longrightarrow>
                \<exists>k. t = (peel_step dmap ^^ k) s \<and>
                    (\<forall>j<k. ranked_idx_num ((peel_step dmap ^^ j) s) < nb) \<and>
                    \<not> ranked_idx_num t < nb"
    and eq: "(if ranked_idx_num s < nb then loop dmap nb (peel_step dmap s) else Some s) = Some t"
  show "\<exists>k. t = (peel_step dmap ^^ k) s \<and>
            (\<forall>j<k. ranked_idx_num ((peel_step dmap ^^ j) s) < nb) \<and> \<not> ranked_idx_num t < nb"
  proof (cases "ranked_idx_num s < nb")
    case False
    then have "t = s" using eq by simp
    then have "t = (peel_step dmap ^^ 0) s \<and>
               (\<forall>j<0. ranked_idx_num ((peel_step dmap ^^ j) s) < nb) \<and> \<not> ranked_idx_num t < nb"
      using False by simp
    then show ?thesis by blast
  next
    case True
    then have "loop dmap nb (peel_step dmap s) = Some t" using eq by simp
    from IH[OF this] obtain k where k: "t = (peel_step dmap ^^ k) (peel_step dmap s)"
      "\<forall>j<k. ranked_idx_num ((peel_step dmap ^^ j) (peel_step dmap s)) < nb"
      "\<not> ranked_idx_num t < nb" by blast
    have "ranked_idx_num ((peel_step dmap ^^ j) s) < nb" if "j < Suc k" for j
    proof (cases j)
      case 0
      then show ?thesis using True by simp
    next
      case (Suc j')
      then show ?thesis using k(2) that by (simp add: funpow_swap1)
    qed
    then have "t = (peel_step dmap ^^ Suc k) s \<and>
               (\<forall>j<Suc k. ranked_idx_num ((peel_step dmap ^^ j) s) < nb) \<and> \<not> ranked_idx_num t < nb"
      using k by (simp add: funpow_swap1)
    then show ?thesis by blast
  qed
qed

section \<open>Normalisation, dominance and the shape error\<close>


lemma list_feq_self: "list_feq xs xs \<longleftrightarrow> (\<forall>x \<in> set xs. \<not> isnan x)"
  by (induction xs) (auto simp: feq_def)

lemma all_le_self: "all_le xs xs \<longleftrightarrow> (\<forall>x \<in> set xs. \<not> isnan x)"
  unfolding all_le_def
  by (induction xs) (auto simp: fle_refl dest: fle_not_nan)

lemma list_feq_eq: "list_feq xs ys \<Longrightarrow> xs = ys"
  by (induction xs ys rule: list_feq.induct) (auto simp: feq_def)

lemma list_feq_sym: "list_feq xs ys \<Longrightarrow> list_feq ys xs"
  by (induction xs ys rule: list_feq.induct) (auto simp: feq_def)

lemma all_le_antisym:
  "length xs = length ys \<Longrightarrow> all_le xs ys \<Longrightarrow> all_le ys xs \<Longrightarrow> list_feq xs ys"
  unfolding all_le_def
proof (induction xs ys rule: list_induct2)
  case Nil
  then show ?case by simp
next
  case (Cons x xs y ys)
  then have "fle x y" "fle y x" by simp_all
  then have "feq x y" using fle_antisym fle_not_nan by (auto simp: feq_def)
  then show ?case using Cons by simp
qed

lemma dominates_tail_identity:
  assumes "list_feq xs ys \<longrightarrow> e" "e \<longrightarrow> xs = ys"
  shows "(if e then False else all_le xs ys) = (if list_feq xs ys then False else all_le xs ys)"
  using assms list_feq_self[of xs] all_le_self[of xs] by auto

lemma length_normalized [simp]:
  "length (normalized vs ds) = min (length vs) (length ds)"
  by (simp add: normalized_def)

text \<open>
  Claim C1.  A missing objective value is replaced by positive infinity before the direction
  is applied, so under MAXIMIZE the negation turns it into negative infinity: the function
  returns \<open>+inf\<close> for MINIMIZE and \<open>-inf\<close> for MAXIMIZE.
\<close>

theorem normalize_value_none:
  "normalize_value None MINIMIZE = PInf \<and> normalize_value None MAXIMIZE = NInf"
  by (simp add: normalize_value_def)

text \<open>
  Claim C6.  Dominance is irreflexive and asymmetric: \<open>dominates a a\<close> never returns true,
  and returns false whenever the trial is not complete or its values match the directions in
  number (otherwise the call raises); and if \<open>dominates a b\<close> returns true then
  \<open>dominates b a\<close> returns false.
\<close>

theorem dominates_irreflexive_asymmetric:
  "dominates a a directions \<noteq> Inr True \<and>
   ((state a \<noteq> COMPLETE \<or> (\<exists>vs. values a = Some vs \<and> length vs = length directions))
      \<longrightarrow> dominates a a directions = Inr False) \<and>
   (dominates a b directions = Inr True \<longrightarrow> dominates b a directions = Inr False)"
proof (intro conjI impI)
  show "dominates a a directions \<noteq> Inr True"
    using list_feq_self all_le_self
    by (auto simp: dominates_def Let_def split: option.splits)
  show "dominates a a directions = Inr False"
    if "state a \<noteq> COMPLETE \<or> (\<exists>vs. values a = Some vs \<and> length vs = length directions)"
    using that list_feq_self all_le_self
    by (auto simp: dominates_def Let_def split: option.splits)
  show "dominates b a directions = Inr False" if "dominates a b directions = Inr True"
  proof (cases "state b = COMPLETE")
    case False
    then show ?thesis by (simp add: dominates_def)
  next
    case True
    with that have ca: "state a = COMPLETE" by (auto simp: dominates_def split: if_splits)
    from that True ca obtain va vb where v: "values a = Some va" "values b = Some vb"
      "length va = length vb" "length va = length directions"
      "\<not> list_feq (normalized va directions) (normalized vb directions)"
      "all_le (normalized va directions) (normalized vb directions)"
      by (auto simp: dominates_def Let_def split: option.splits if_splits)
    have "\<not> all_le (normalized vb directions) (normalized va directions)"
      using all_le_antisym[of "normalized va directions" "normalized vb directions"] v by auto
    moreover have "\<not> list_feq (normalized vb directions) (normalized va directions)"
      using v(5) list_feq_sym by blast
    ultimately show ?thesis using True ca v by (simp add: dominates_def Let_def)
  qed
qed

theorem dominates_irreflexive_asymmetric_witness:
  "dominates \<lparr>number = 0, state = COMPLETE, values = Some [Some (Fin 1), None]\<rparr>
             \<lparr>number = 0, state = COMPLETE, values = Some [Some (Fin 1), None]\<rparr>
             [MINIMIZE, MAXIMIZE] = Inr False \<and>
   dominates \<lparr>number = 0, state = COMPLETE, values = Some [Some (Fin 1), Some (Fin 5)]\<rparr>
             \<lparr>number = 1, state = COMPLETE, values = Some [Some (Fin 2), Some (Fin 3)]\<rparr>
             [MINIMIZE, MAXIMIZE] = Inr True \<and>
   dominates \<lparr>number = 1, state = COMPLETE, values = Some [Some (Fin 2), Some (Fin 3)]\<rparr>
             \<lparr>number = 0, state = COMPLETE, values = Some [Some (Fin 1), Some (Fin 5)]\<rparr>
             [MINIMIZE, MAXIMIZE] = Inr False"
proof -
  let ?a = "\<lparr>number = 0, state = COMPLETE, values = Some [Some (Fin 1), Some (Fin 5)]\<rparr>"
  let ?b = "\<lparr>number = 1, state = COMPLETE, values = Some [Some (Fin 2), Some (Fin 3)]\<rparr>"
  let ?c = "\<lparr>number = 0, state = COMPLETE, values = Some [Some (Fin 1), None]\<rparr>"
  have ab: "dominates ?a ?b [MINIMIZE, MAXIMIZE] = Inr True"
    by (simp add: dominates_def normalized_def normalize_value_def all_le_def feq_def)
  have "dominates ?c ?c [MINIMIZE, MAXIMIZE] = Inr False"
    using dominates_irreflexive_asymmetric[of ?c "[MINIMIZE, MAXIMIZE]" ?c] by simp
  moreover have "dominates ?b ?a [MINIMIZE, MAXIMIZE] = Inr False"
    using dominates_irreflexive_asymmetric[of ?a "[MINIMIZE, MAXIMIZE]" ?b] ab by blast
  ultimately show ?thesis using ab by blast
qed

text \<open>
  Claim C8.  The ranking entry point raises exactly when a penalty vector is given whose
  length differs from the number of rows, and then the error is a ValueError; the result is
  this error for every \<open>n_below\<close>, also for those on which a ranking loop would not
  terminate: no ranking is computed first.
\<close>

theorem fast_non_dominated_sort_error:
  "fast_non_dominated_sort objective_values penalty n_below = Some (Inl e) \<longleftrightarrow>
     e = ValueError \<and> (\<exists>p. penalty = Some p \<and> length p \<noteq> length objective_values)"
  by (auto simp: fast_non_dominated_sort_def Let_def split: option.splits prod.splits)

theorem fast_non_dominated_sort_error_witness:
  "fast_non_dominated_sort [[Fin 1], [Fin 2]] (Some [Fin 0]) (Some 5) = Some (Inl ValueError)"
  using fast_non_dominated_sort_error[of "[[Fin 1], [Fin 2]]" "Some [Fin 0]" "Some 5" ValueError]
  by simp

section \<open>The ranking loop: termination and the ranks it assigns\<close>

subsection \<open>The state after \<open>k\<close> iterations\<close>

lemma peel_iterate_0 [simp]: "peel_iterate ov 0 = peel_init (domination_mat ov)"
  by (simp add: peel_iterate_def)

lemma peel_iterate_Suc:
  "peel_iterate ov (Suc k) = peel_step (domination_map (domination_mat ov)) (peel_iterate ov k)"
  by (simp add: peel_iterate_def)

lemma peel_iterate_add:
  "peel_iterate ov (k + m) =
     (peel_step (domination_map (domination_mat ov)) ^^ m) (peel_iterate ov k)"
  by (simp add: peel_iterate_def funpow_add add.commute[of k m])

lemma peel_iterate_inv: "peel_inv (length ov) (dom_rel ov) (peel_iterate ov k)"
  by (induction k)
     (simp_all add: peel_init_inv peel_iterate_Suc peel_step_inv domination_map_spec)

lemma rank_peel_iterate: "rank (peel_iterate ov k) = int k - 1"
  by (induction k) (simp_all add: peel_iterate_Suc peel_init_def)

lemma length_ranks_peel_iterate [simp]: "length (ranks (peel_iterate ov k)) = length ov"
  using peel_iterate_inv[of ov k] by (simp add: peel_inv_def)

lemma peel_iterate_ranks_Suc:
  assumes "i < length ov"
  shows "ranks (peel_iterate ov (Suc k)) ! i =
         (if i \<in> peel_front (length ov) (dom_rel ov) (peel_iterate ov k) then int k
          else ranks (peel_iterate ov k) ! i)"
  using peel_step_ranks[OF peel_iterate_inv[of ov k] assms]
  by (simp add: peel_iterate_Suc rank_peel_iterate)

lemma calculate_iterate:
  assumes "\<forall>j<k. ranked_idx_num (peel_iterate ov j) < n_below_or n_below (length ov)"
    and "\<not> ranked_idx_num (peel_iterate ov k) < n_below_or n_below (length ov)"
  shows "calculate_nondomination_rank ov n_below =
         Some (ranks (peel_iterate ov k), rank (peel_iterate ov k))"
  using peel_loop_funpow[of k "domination_map (domination_mat ov)"
      "peel_init (domination_mat ov)" "n_below_or n_below (length ov)"] assms
  by (simp add: calculate_nondomination_rank_def peel_iterate_def Let_def)

lemma calculate_Some:
  assumes "calculate_nondomination_rank ov n_below = Some (rs, r)"
  shows "\<exists>k. (\<forall>j<k. ranked_idx_num (peel_iterate ov j) < n_below_or n_below (length ov)) \<and>
             \<not> ranked_idx_num (peel_iterate ov k) < n_below_or n_below (length ov) \<and>
             rs = ranks (peel_iterate ov k) \<and> r = rank (peel_iterate ov k)"
proof -
  from assms obtain t where t: "peel_loop (domination_map (domination_mat ov))
      (n_below_or n_below (length ov)) (peel_init (domination_mat ov)) = Some t"
      "rs = ranks t" "r = rank t"
    by (auto simp: calculate_nondomination_rank_def Let_def)
  from peel_loop_Some[OF t(1)] t(2,3) show ?thesis
    unfolding peel_iterate_def by blast
qed

lemma peel_iterate_progress:
  assumes "rectangular ov" "ranked_idx_num (peel_iterate ov k) < int (length ov)"
  shows "ranked_idx_num (peel_iterate ov k) < ranked_idx_num (peel_iterate ov (Suc k))"
  using peel_step_progress[OF peel_iterate_inv strict_order_dom_rel[OF assms(1)] assms(2)]
  by (simp add: peel_iterate_Suc)

lemma peel_iterate_ranked_ge:
  assumes "rectangular ov" "\<forall>j<k. ranked_idx_num (peel_iterate ov j) < int (length ov)"
  shows "int k \<le> ranked_idx_num (peel_iterate ov k)"
  using assms(2)
proof (induction k)
  case 0
  then show ?case by (simp add: peel_init_def)
next
  case (Suc k)
  then have "int k \<le> ranked_idx_num (peel_iterate ov k)" by simp
  moreover have "ranked_idx_num (peel_iterate ov k) < ranked_idx_num (peel_iterate ov (Suc k))"
    using peel_iterate_progress[OF assms(1)] Suc.prems by simp
  ultimately show ?case by simp
qed

lemma peel_iterate_stops:
  assumes "rectangular ov" "nb \<le> int (length ov)"
  shows "\<exists>k \<le> length ov. (\<forall>j<k. ranked_idx_num (peel_iterate ov j) < nb) \<and>
                          \<not> ranked_idx_num (peel_iterate ov k) < nb"
proof -
  let ?P = "\<lambda>k. \<not> ranked_idx_num (peel_iterate ov k) < nb"
  have ex: "\<exists>k \<le> length ov. ?P k"
  proof (rule ccontr)
    assume "\<not> (\<exists>k \<le> length ov. ?P k)"
    then have all: "\<forall>k \<le> length ov. ranked_idx_num (peel_iterate ov k) < nb" by blast
    have "ranked_idx_num (peel_iterate ov j) < int (length ov)" if "j < length ov" for j
    proof -
      have "ranked_idx_num (peel_iterate ov j) < nb" using all that by simp
      then show ?thesis using assms(2) by simp
    qed
    then have "\<forall>j < length ov. ranked_idx_num (peel_iterate ov j) < int (length ov)"
      by blast
    then have "int (length ov) \<le> ranked_idx_num (peel_iterate ov (length ov))"
      by (rule peel_iterate_ranked_ge[OF assms(1)])
    moreover have "ranked_idx_num (peel_iterate ov (length ov)) < nb" using all by simp
    ultimately show False using assms(2) by simp
  qed
  then obtain k where k: "k \<le> length ov" "?P k" by blast
  let ?k = "LEAST k. ?P k"
  have "?P ?k" using k(2) by (rule LeastI)
  moreover have "?k \<le> k" using k(2) by (rule Least_le)
  moreover have "\<forall>j < ?k. ranked_idx_num (peel_iterate ov j) < nb"
    using not_less_Least by blast
  ultimately show ?thesis using k(1) by (intro exI[of _ ?k]) simp
qed

lemma n_below_or_le:
  assumes "n_below = None \<or> (\<exists>b. n_below = Some b \<and> b \<le> int n)"
  shows "n_below_or n_below n \<le> int n"
  using assms by (auto simp: n_below_or_def)

lemma peel_front_has_zero:
  assumes "rectangular ov" "\<exists>i < length ov. ranks (peel_iterate ov j) ! i = - 1"
  shows "\<exists>i < length ov. ranks (peel_iterate ov j) ! i = - 1 \<and>
                        dominated_count (peel_iterate ov j) ! i = 0"
proof -
  from assms(2) obtain i where "i < length ov" "ranks (peel_iterate ov j) ! i = - 1" by blast
  then have "peel_front (length ov) (dom_rel ov) (peel_iterate ov j) \<noteq> {}"
    by (rule peel_front_nonempty[OF strict_order_dom_rel[OF assms(1)]])
  then obtain i' where i': "i' \<in> peel_front (length ov) (dom_rel ov) (peel_iterate ov j)"
    by blast
  then have "i' < length ov" "ranks (peel_iterate ov j) ! i' = - 1"
    by (simp_all add: peel_front_def)
  moreover have "dominated_count (peel_iterate ov j) ! i' = 0"
    using peel_front_zero[OF peel_iterate_inv \<open>i' < length ov\<close>] i' by blast
  ultimately show ?thesis by blast
qed

lemma calculate_terminates:
  assumes "rectangular ov"
    and "n_below = None \<or> (\<exists>b. n_below = Some b \<and> b \<le> int (length ov))"
  shows "\<exists>k \<le> length ov.
           calculate_nondomination_rank ov n_below =
             Some (ranks (peel_iterate ov k), rank (peel_iterate ov k)) \<and>
           (\<forall>j<k. ranked_idx_num (peel_iterate ov j) < n_below_or n_below (length ov)) \<and>
           \<not> ranked_idx_num (peel_iterate ov k) < n_below_or n_below (length ov)"
proof -
  let ?nb = "n_below_or n_below (length ov)"
  have nb: "?nb \<le> int (length ov)" by (rule n_below_or_le[OF assms(2)])
  from peel_iterate_stops[OF assms(1) nb] obtain k where k: "k \<le> length ov"
    "\<forall>j<k. ranked_idx_num (peel_iterate ov j) < ?nb" "\<not> ranked_idx_num (peel_iterate ov k) < ?nb"
    by blast
  with calculate_iterate[OF k(2,3)] show ?thesis by blast
qed

subsection \<open>Ranks of particular rows\<close>

lemma ranks_peel_init: "i < length ov \<Longrightarrow> ranks (peel_iterate ov 0) ! i = - 1"
  by (simp add: peel_init_def)

lemma peel_iterate_zero:
  assumes "i < length ov"
  shows "ranks (peel_iterate ov k) ! i = 0 \<longleftrightarrow> 0 < k \<and> (\<forall>j < length ov. \<not> dom_rel ov i j)"
proof (induction k)
  case 0
  then show ?case using assms by (simp add: peel_init_def)
next
  case (Suc k)
  let ?F = "peel_front (length ov) (dom_rel ov) (peel_iterate ov k)"
  note step = peel_iterate_ranks_Suc[OF assms, of k]
  show ?case
  proof (cases "k = 0")
    case True
    have "i \<in> ?F \<longleftrightarrow> (\<forall>j < length ov. \<not> dom_rel ov i j)"
      using assms True by (auto simp: peel_front_def peel_init_def)
    then show ?thesis using step True assms by (auto simp: peel_init_def)
  next
    case False
    have "ranks (peel_iterate ov k) ! i = - 1" if "i \<in> ?F"
      using that by (simp add: peel_front_def)
    then show ?thesis using step False Suc.IH by auto
  qed
qed

lemma peel_iterate_twins:
  assumes "i < length ov" "i' < length ov" "\<forall>j < length ov. dom_rel ov i j = dom_rel ov i' j"
  shows "ranks (peel_iterate ov k) ! i = ranks (peel_iterate ov k) ! i'"
proof (induction k)
  case 0
  then show ?case using assms by (simp add: peel_init_def)
next
  case (Suc k)
  let ?F = "peel_front (length ov) (dom_rel ov) (peel_iterate ov k)"
  have "i \<in> ?F \<longleftrightarrow> i' \<in> ?F"
    using assms Suc.IH by (auto simp: peel_front_def)
  then show ?case
    using peel_iterate_ranks_Suc[OF assms(1), of k] peel_iterate_ranks_Suc[OF assms(2), of k]
      Suc.IH by simp
qed

lemma peel_iterate_ranked_bounds:
  assumes "i < length ov" "ranks (peel_iterate ov k) ! i \<noteq> - 1"
  shows "0 \<le> ranks (peel_iterate ov k) ! i \<and> ranks (peel_iterate ov k) ! i < int k"
  using peel_iterate_inv[of ov k] assms by (auto simp: peel_inv_def rank_peel_iterate)

lemma peel_iterate_later:
  assumes "i < length ov"
  shows "ranks (peel_iterate ov (k + m)) ! i =
         (if ranks (peel_iterate ov k) ! i \<noteq> - 1 then ranks (peel_iterate ov k) ! i
          else ranks (peel_iterate ov (k + m)) ! i) \<and>
         (ranks (peel_iterate ov k) ! i = - 1 \<longrightarrow>
            ranks (peel_iterate ov (k + m)) ! i = - 1 \<or> int k \<le> ranks (peel_iterate ov (k + m)) ! i)"
proof (induction m)
  case 0
  then show ?case by simp
next
  case (Suc m)
  let ?F = "peel_front (length ov) (dom_rel ov) (peel_iterate ov (k + m))"
  have step: "ranks (peel_iterate ov (k + Suc m)) ! i =
        (if i \<in> ?F then int (k + m) else ranks (peel_iterate ov (k + m)) ! i)"
    using peel_iterate_ranks_Suc[OF assms, of "k + m"] by simp
  have F: "ranks (peel_iterate ov (k + m)) ! i = - 1" if "i \<in> ?F"
    using that by (simp add: peel_front_def)
  show ?case
  proof (cases "ranks (peel_iterate ov k) ! i = - 1")
    case True
    then show ?thesis using step Suc.IH by auto
  next
    case False
    then have "ranks (peel_iterate ov (k + m)) ! i \<noteq> - 1" using Suc.IH by auto
    then have "i \<notin> ?F" using F by blast
    then show ?thesis using step Suc.IH False by auto
  qed
qed

lemma peel_iterate_restrict:
  assumes "i < length ov" "k \<le> k'" "ranks (peel_iterate ov k') ! i \<noteq> - 1"
  shows "ranks (peel_iterate ov k) ! i =
         (if ranks (peel_iterate ov k') ! i < int k then ranks (peel_iterate ov k') ! i else - 1)"
proof -
  obtain m where m: "k' = k + m" using assms(2) le_Suc_ex by blast
  note l = peel_iterate_later[OF assms(1), of k m]
  show ?thesis
  proof (cases "ranks (peel_iterate ov k) ! i = - 1")
    case True
    then have "int k \<le> ranks (peel_iterate ov k') ! i" using l assms(3) m by auto
    then show ?thesis using True by simp
  next
    case False
    then have "ranks (peel_iterate ov k') ! i = ranks (peel_iterate ov k) ! i"
      using l m by auto
    then show ?thesis using peel_iterate_ranked_bounds[OF assms(1) False] by simp
  qed
qed

lemma dom_rel_same_row:
  "ov ! i = ov ! i' \<Longrightarrow> dom_rel ov i j = dom_rel ov i' j"
  "ov ! i = ov ! i' \<Longrightarrow> \<not> dom_rel ov i i'"
  by (simp_all add: dom_rel_def dominated_by_irrefl)

lemma dom_rel_nan:
  assumes "rectangular ov" "i < length ov" "j < length ov" "\<exists>x \<in> set (ov ! i). isnan x"
  shows "\<not> dom_rel ov i j \<and> \<not> dom_rel ov j i"
proof -
  have "length (ov ! i) = length (ov ! j)" using assms(1-3) by (simp add: rectangular_def)
  then show ?thesis using dominated_by_nan assms(4) by (simp add: dom_rel_def)
qed

text \<open>
  Claim C9.  For a matrix with \<open>n\<close> rows and \<open>n_below\<close> equal to \<open>None\<close> or at most \<open>n\<close> (so
  also \<open>0\<close>), the loop stops after \<open>k \<le> n\<close> iterations: its condition holds before each of
  the first \<open>k\<close> iterations, each of which ranks at least one more row, and fails after
  them, and the call returns the state reached.  Dominance between rows is a strict partial
  order, an unranked row with dominated count zero exists as long as a row is unranked, and
  \<open>None\<close> and \<open>0\<close> both stand for \<open>n\<close>.
\<close>

theorem peel_loop_terminates:
  assumes "rectangular ov"
    and "n_below = None \<or> (\<exists>b. n_below = Some b \<and> b \<le> int (length ov))"
  shows "(\<exists>k \<le> length ov.
            calculate_nondomination_rank ov n_below =
              Some (ranks (peel_iterate ov k), rank (peel_iterate ov k)) \<and>
            (\<forall>j<k. ranked_idx_num (peel_iterate ov j) < n_below_or n_below (length ov) \<and>
                   ranked_idx_num (peel_iterate ov j) < ranked_idx_num (peel_iterate ov (Suc j))) \<and>
            \<not> ranked_idx_num (peel_iterate ov k) < n_below_or n_below (length ov) \<and>
            rank (peel_iterate ov k) = int k - 1) \<and>
         strict_order (length ov) (dom_rel ov) \<and>
         (\<forall>j. (\<exists>i < length ov. ranks (peel_iterate ov j) ! i = - 1) \<longrightarrow>
              (\<exists>i < length ov. ranks (peel_iterate ov j) ! i = - 1 \<and>
                              dominated_count (peel_iterate ov j) ! i = 0)) \<and>
         n_below_or None (length ov) = int (length ov) \<and>
         n_below_or (Some 0) (length ov) = int (length ov)"
proof -
  let ?nb = "n_below_or n_below (length ov)"
  have nb: "?nb \<le> int (length ov)" by (rule n_below_or_le[OF assms(2)])
  from calculate_terminates[OF assms] obtain k where k: "k \<le> length ov"
    "calculate_nondomination_rank ov n_below =
       Some (ranks (peel_iterate ov k), rank (peel_iterate ov k))"
    "\<forall>j<k. ranked_idx_num (peel_iterate ov j) < ?nb" "\<not> ranked_idx_num (peel_iterate ov k) < ?nb"
    by blast
  have "ranked_idx_num (peel_iterate ov j) < ranked_idx_num (peel_iterate ov (Suc j))"
    if "j < k" for j
    using peel_iterate_progress[OF assms(1), of j] k(3) nb that by force
  with k have "\<exists>k \<le> length ov.
            calculate_nondomination_rank ov n_below =
              Some (ranks (peel_iterate ov k), rank (peel_iterate ov k)) \<and>
            (\<forall>j<k. ranked_idx_num (peel_iterate ov j) < ?nb \<and>
                   ranked_idx_num (peel_iterate ov j) < ranked_idx_num (peel_iterate ov (Suc j))) \<and>
            \<not> ranked_idx_num (peel_iterate ov k) < ?nb \<and>
            rank (peel_iterate ov k) = int k - 1"
    using rank_peel_iterate by blast
  moreover have "strict_order (length ov) (dom_rel ov)"
    by (rule strict_order_dom_rel[OF assms(1)])
  moreover have "\<forall>j. (\<exists>i < length ov. ranks (peel_iterate ov j) ! i = - 1) \<longrightarrow>
              (\<exists>i < length ov. ranks (peel_iterate ov j) ! i = - 1 \<and>
                              dominated_count (peel_iterate ov j) ! i = 0)"
    using peel_front_has_zero[OF assms(1)] by blast
  moreover have "n_below_or None (length ov) = int (length ov)"
    "n_below_or (Some 0) (length ov) = int (length ov)"
    by (simp_all add: n_below_or_def)
  ultimately show ?thesis by blast
qed

theorem peel_loop_terminates_witness:
  "rectangular [[Fin 1, Fin 2], [Fin 2, Fin 1], [Fin 1, Fin 1]] \<and>
   (\<exists>k \<le> 3. calculate_nondomination_rank [[Fin 1, Fin 2], [Fin 2, Fin 1], [Fin 1, Fin 1]] (Some 2) =
      Some (ranks (peel_iterate [[Fin 1, Fin 2], [Fin 2, Fin 1], [Fin 1, Fin 1]] k),
            rank (peel_iterate [[Fin 1, Fin 2], [Fin 2, Fin 1], [Fin 1, Fin 1]] k))) \<and>
   calculate_nondomination_rank [[Fin 1, Fin 2], [Fin 2, Fin 1], [Fin 1, Fin 1]] (Some 2) =
     Some ([1, 1, 0], 1)"
proof -
  let ?ov = "[[Fin 1, Fin 2], [Fin 2, Fin 1], [Fin 1, Fin 1]]"
  have r: "rectangular ?ov" by (simp add: rectangular_def)
  have h: "Some 2 = (None :: int option) \<or> (\<exists>b. Some 2 = Some b \<and> b \<le> int (length ?ov))"
    by simp
  have e: "calculate_nondomination_rank ?ov (Some 2) = Some ([1, 1, 0], 1)" by code_simp
  from peel_loop_terminates[OF r h] obtain k where k: "k \<le> length ?ov"
    "calculate_nondomination_rank ?ov (Some 2) =
       Some (ranks (peel_iterate ?ov k), rank (peel_iterate ?ov k))"
    by blast
  from k(1) have "k \<le> 3" by simp
  with k(2) r e show ?thesis by blast
qed

text \<open>
  Claim C7.  Two rows with the same vector do not dominate each other and are dominated by
  the same rows; they carry the same rank after every iteration, hence in whatever the call
  returns, for every \<open>n_below\<close>; and the call does return when \<open>n_below\<close> is \<open>None\<close> or at
  most the number of rows.
\<close>

theorem identical_rows_same_rank:
  assumes "i < length ov" "i' < length ov" "ov ! i = ov ! i'"
  shows "\<not> dom_rel ov i i' \<and> \<not> dom_rel ov i' i \<and> (\<forall>j. dom_rel ov i j = dom_rel ov i' j) \<and>
         (\<forall>k. ranks (peel_iterate ov k) ! i = ranks (peel_iterate ov k) ! i') \<and>
         (\<forall>rs r. calculate_nondomination_rank ov n_below = Some (rs, r) \<longrightarrow> rs ! i = rs ! i') \<and>
         (rectangular ov \<and> (n_below = None \<or> (\<exists>b. n_below = Some b \<and> b \<le> int (length ov)))
            \<longrightarrow> (\<exists>rs r. calculate_nondomination_rank ov n_below = Some (rs, r) \<and>
                        rs ! i = rs ! i'))"
proof -
  have d: "\<not> dom_rel ov i i'" "\<not> dom_rel ov i' i" "\<forall>j. dom_rel ov i j = dom_rel ov i' j"
    using assms(3) dom_rel_same_row[of ov i i'] dom_rel_same_row(2)[of ov i' i] by auto
  have it: "ranks (peel_iterate ov k) ! i = ranks (peel_iterate ov k) ! i'" for k
    using peel_iterate_twins[OF assms(1,2)] d(3) by blast
  have ret: "rs ! i = rs ! i'" if "calculate_nondomination_rank ov n_below = Some (rs, r)" for rs r
    using calculate_Some[OF that] it by blast
  have "\<exists>rs r. calculate_nondomination_rank ov n_below = Some (rs, r) \<and> rs ! i = rs ! i'"
    if "rectangular ov" "n_below = None \<or> (\<exists>b. n_below = Some b \<and> b \<le> int (length ov))"
    using calculate_terminates[OF that] it by blast
  with d it ret show ?thesis by blast
qed

theorem identical_rows_same_rank_witness:
  "\<exists>rs r. calculate_nondomination_rank [[Fin 1, Fin 2], [Fin 0, Fin 0], [Fin 1, Fin 2]] (Some 3) =
             Some (rs, r) \<and> rs ! 0 = rs ! 2"
proof -
  let ?ov = "[[Fin 1, Fin 2], [Fin 0, Fin 0], [Fin 1, Fin 2]]"
  have r: "rectangular ?ov" by (simp add: rectangular_def)
  have "(0::nat) < length ?ov" "(2::nat) < length ?ov" "?ov ! 0 = ?ov ! 2" by simp_all
  from identical_rows_same_rank[OF this, of "Some 3"] r show ?thesis by simp
qed

text \<open>
  Claim C10, as amended.  A row with a NaN coordinate neither dominates a row nor is
  dominated by one, and its rank is 0 after every iteration from the first on.  So whenever
  the loop runs at all (\<open>n_below\<close> is \<open>None\<close>, \<open>0\<close> or positive) and the call returns, the
  row has rank 0; and the call returns when \<open>n_below\<close> is \<open>None\<close> or between 0 and the
  number of rows.  For a negative \<open>n_below\<close> the loop body never runs and every row keeps
  the value \<open>-1\<close>.
\<close>

theorem nan_row_rank_zero:
  assumes "rectangular ov" "i < length ov" "\<exists>x \<in> set (ov ! i). isnan x"
  shows "(\<forall>j < length ov. \<not> dom_rel ov i j \<and> \<not> dom_rel ov j i) \<and>
         (\<forall>k. 0 < k \<longrightarrow> ranks (peel_iterate ov k) ! i = 0) \<and>
         (\<forall>rs r. calculate_nondomination_rank ov n_below = Some (rs, r) \<and>
                 0 < n_below_or n_below (length ov) \<longrightarrow> rs ! i = 0) \<and>
         ((n_below = None \<or> (\<exists>b. n_below = Some b \<and> 0 \<le> b \<and> b \<le> int (length ov)))
            \<longrightarrow> (\<exists>rs r. calculate_nondomination_rank ov n_below = Some (rs, r) \<and> rs ! i = 0))"
proof -
  have d: "\<forall>j < length ov. \<not> dom_rel ov i j \<and> \<not> dom_rel ov j i"
    using dom_rel_nan[OF assms(1,2) _ assms(3)] by blast
  then have z: "ranks (peel_iterate ov k) ! i = 0" if "0 < k" for k
    using peel_iterate_zero[OF assms(2), of k] that by blast
  have ret: "rs ! i = 0"
    if c: "calculate_nondomination_rank ov n_below = Some (rs, r)"
      and p: "0 < n_below_or n_below (length ov)" for rs r
  proof -
    from calculate_Some[OF c] obtain k where
      k: "\<not> ranked_idx_num (peel_iterate ov k) < n_below_or n_below (length ov)"
      "rs = ranks (peel_iterate ov k)" by blast
    have "k \<noteq> 0"
    proof
      assume "k = 0"
      then have "ranked_idx_num (peel_iterate ov k) = 0" by (simp add: peel_init_def)
      then show False using k(1) p by simp
    qed
    then show ?thesis using z k(2) by simp
  qed
  have "\<exists>rs r. calculate_nondomination_rank ov n_below = Some (rs, r) \<and> rs ! i = 0"
    if h: "n_below = None \<or> (\<exists>b. n_below = Some b \<and> 0 \<le> b \<and> b \<le> int (length ov))"
  proof -
    have "n_below = None \<or> (\<exists>b. n_below = Some b \<and> b \<le> int (length ov))" using h by blast
    from calculate_terminates[OF assms(1) this] obtain rs r where
      c: "calculate_nondomination_rank ov n_below = Some (rs, r)" by blast
    have "0 < n_below_or n_below (length ov)"
      using h assms(2) by (auto simp: n_below_or_def)
    with ret[OF c] c show ?thesis by blast
  qed
  with d z ret show ?thesis by blast
qed

theorem nan_row_rank_zero_witness:
  "rectangular [[Fin 1, Fin 1], [NaN, Fin 0], [Fin 2, Fin 2]] \<and>
   (\<exists>rs r. calculate_nondomination_rank [[Fin 1, Fin 1], [NaN, Fin 0], [Fin 2, Fin 2]] (Some 3) =
             Some (rs, r) \<and> rs ! 1 = 0)"
proof -
  let ?ov = "[[Fin 1, Fin 1], [NaN, Fin 0], [Fin 2, Fin 2]]"
  have r: "rectangular ?ov" by (simp add: rectangular_def)
  have i: "(1::nat) < length ?ov" "\<exists>x \<in> set (?ov ! 1). isnan x" by simp_all
  from nan_row_rank_zero[OF r i, of "Some 3"] r show ?thesis by simp
qed

theorem nan_row_rank_counterexample:
  "calculate_nondomination_rank [[NaN, Fin 0]] (Some (- 1)) = Some ([- 1], - 1)"
  by code_simp

subsection \<open>Partial and full ranking\<close>

lemma peel_iterate_all_ranked:
  assumes "\<not> ranked_idx_num (peel_iterate ov k) < int (length ov)" "i < length ov"
  shows "ranks (peel_iterate ov k) ! i \<noteq> - 1"
  using peel_all_ranked[OF peel_iterate_inv[of ov k] _ assms(2)] assms(1) by simp

lemma peel_iterate_ranked_card:
  assumes full: "\<not> ranked_idx_num (peel_iterate ov k') < int (length ov)" and "k \<le> k'"
  shows "ranked_idx_num (peel_iterate ov k) =
         int (card {i. i < length ov \<and> ranks (peel_iterate ov k') ! i < int k})"
proof -
  have "ranks (peel_iterate ov k) ! i \<noteq> - 1 \<longleftrightarrow> ranks (peel_iterate ov k') ! i < int k"
    if "i < length ov" for i
  proof -
    have r: "ranks (peel_iterate ov k') ! i \<noteq> - 1"
      by (rule peel_iterate_all_ranked[OF full that])
    have "0 \<le> ranks (peel_iterate ov k') ! i"
      using peel_iterate_ranked_bounds[OF that r] by simp
    then show ?thesis
      using peel_iterate_restrict[OF that assms(2) r] by auto
  qed
  then have "{i. i < length ov \<and> ranks (peel_iterate ov k) ! i \<noteq> - 1} =
             {i. i < length ov \<and> ranks (peel_iterate ov k') ! i < int k}"
    by blast
  then show ?thesis using peel_iterate_inv[of ov k] by (simp add: peel_inv_def)
qed

text \<open>
  Claim C5.  For a matrix with \<open>n\<close> rows and \<open>1 \<le> m \<le> n\<close>, the ranking with
  \<open>n_below = m\<close> and the full ranking both return; a row whose full rank is at most the
  rank index \<open>kp\<close> returned by the partial ranking has that same rank in the partial
  result, and every other row has \<open>-1\<close> there.  The index \<open>kp\<close> is the first rank index up
  to which at least \<open>m\<close> rows are ranked.
\<close>

theorem partial_ranking_consistent:
  assumes "rectangular ov" "1 \<le> m" "m \<le> int (length ov)"
  shows "\<exists>rp kp rf kf.
           calculate_nondomination_rank ov (Some m) = Some (rp, kp) \<and>
           calculate_nondomination_rank ov None = Some (rf, kf) \<and>
           length rp = length ov \<and> length rf = length ov \<and>
           (\<forall>i < length ov. 0 \<le> rf ! i \<and> rp ! i = (if rf ! i \<le> kp then rf ! i else - 1)) \<and>
           m \<le> int (card {i. i < length ov \<and> rf ! i \<le> kp}) \<and>
           (\<forall>k < kp. int (card {i. i < length ov \<and> rf ! i \<le> k}) < m)"
proof -
  let ?n = "length ov"
  have nbm: "n_below_or (Some m) ?n = m" using assms(2) by (simp add: n_below_or_def)
  have nbn: "n_below_or None ?n = int ?n" by (simp add: n_below_or_def)
  have "Some m = None \<or> (\<exists>b. Some m = Some b \<and> b \<le> int ?n)" using assms(3) by simp
  from calculate_terminates[OF assms(1) this] obtain k1 where k1:
    "calculate_nondomination_rank ov (Some m) =
       Some (ranks (peel_iterate ov k1), rank (peel_iterate ov k1))"
    "\<forall>j<k1. ranked_idx_num (peel_iterate ov j) < m"
    "\<not> ranked_idx_num (peel_iterate ov k1) < m"
    unfolding nbm by blast
  have "(None :: int option) = None \<or> (\<exists>b. None = Some b \<and> b \<le> int ?n)" by simp
  from calculate_terminates[OF assms(1) this] obtain k2 where k2:
    "calculate_nondomination_rank ov None =
       Some (ranks (peel_iterate ov k2), rank (peel_iterate ov k2))"
    "\<not> ranked_idx_num (peel_iterate ov k2) < int ?n"
    unfolding nbn by blast
  let ?rp = "ranks (peel_iterate ov k1)" and ?rf = "ranks (peel_iterate ov k2)"
  let ?kp = "int k1 - 1"
  have le: "k1 \<le> k2"
  proof (rule ccontr)
    assume "\<not> k1 \<le> k2"
    then have "ranked_idx_num (peel_iterate ov k2) < m" using k1(2) by simp
    then show False using k2(2) assms(3) by simp
  qed
  have rows: "0 \<le> ?rf ! i \<and> ?rp ! i = (if ?rf ! i \<le> ?kp then ?rf ! i else - 1)"
    if "i < ?n" for i
  proof -
    have r: "?rf ! i \<noteq> - 1" by (rule peel_iterate_all_ranked[OF k2(2) that])
    show ?thesis
      using peel_iterate_ranked_bounds[OF that r] peel_iterate_restrict[OF that le r] by auto
  qed
  have card: "ranked_idx_num (peel_iterate ov k) =
              int (card {i. i < ?n \<and> ?rf ! i \<le> int k - 1})" if "k \<le> k2" for k
  proof -
    have "{i. i < ?n \<and> ?rf ! i < int k} = {i. i < ?n \<and> ?rf ! i \<le> int k - 1}" by auto
    then show ?thesis using peel_iterate_ranked_card[OF k2(2) that] by simp
  qed
  have reach: "m \<le> int (card {i. i < ?n \<and> ?rf ! i \<le> ?kp})"
    using card[OF le] k1(3) by simp
  have first: "int (card {i. i < ?n \<and> ?rf ! i \<le> k}) < m" if "k < ?kp" for k
  proof (cases "k < 0")
    case True
    then have "{i. i < ?n \<and> ?rf ! i \<le> k} = {}" using rows by force
    then have "int (card {i. i < ?n \<and> ?rf ! i \<le> k}) = 0"
      by (simp only: card.empty of_nat_0)
    with assms(2) show ?thesis by linarith
  next
    case False
    let ?j = "nat (k + 1)"
    have j: "?j < k1" "int ?j - 1 = k" using that False by simp_all
    then have "ranked_idx_num (peel_iterate ov ?j) < m" using k1(2) by blast
    moreover have "?j \<le> k2" using j(1) le by simp
    ultimately show ?thesis using card[of ?j] j(2) by simp
  qed
  have "calculate_nondomination_rank ov (Some m) = Some (?rp, ?kp)"
    "calculate_nondomination_rank ov None = Some (?rf, rank (peel_iterate ov k2))"
    using k1(1) k2(1) by (simp_all add: rank_peel_iterate)
  moreover have "length ?rp = ?n" "length ?rf = ?n" by simp_all
  ultimately show ?thesis using rows reach first by blast
qed

theorem partial_ranking_consistent_witness:
  "rectangular [[Fin 1, Fin 2], [Fin 2, Fin 1], [Fin 1, Fin 1], [Fin 3, Fin 3]] \<and>
   calculate_nondomination_rank [[Fin 1, Fin 2], [Fin 2, Fin 1], [Fin 1, Fin 1], [Fin 3, Fin 3]]
     (Some 2) = Some ([1, 1, 0, - 1], 1) \<and>
   calculate_nondomination_rank [[Fin 1, Fin 2], [Fin 2, Fin 1], [Fin 1, Fin 1], [Fin 3, Fin 3]]
     None = Some ([1, 1, 0, 2], 2) \<and>
   (\<exists>rp kp rf kf.
      calculate_nondomination_rank [[Fin 1, Fin 2], [Fin 2, Fin 1], [Fin 1, Fin 1], [Fin 3, Fin 3]]
        (Some 2) = Some (rp, kp) \<and>
      calculate_nondomination_rank [[Fin 1, Fin 2], [Fin 2, Fin 1], [Fin 1, Fin 1], [Fin 3, Fin 3]]
        None = Some (rf, kf) \<and>
      rp ! 3 = (if rf ! 3 \<le> kp then rf ! 3 else - 1))"
proof -
  let ?ov = "[[Fin 1, Fin 2], [Fin 2, Fin 1], [Fin 1, Fin 1], [Fin 3, Fin 3]]"
  have r: "rectangular ?ov" by (simp add: rectangular_def)
  have m: "(1::int) \<le> 2" "(2::int) \<le> int (length ?ov)" by simp_all
  have e1: "calculate_nondomination_rank ?ov (Some 2) = Some ([1, 1, 0, - 1], 1)" by code_simp
  have e2: "calculate_nondomination_rank ?ov None = Some ([1, 1, 0, 2], 2)" by code_simp
  from partial_ranking_consistent[OF r m] obtain rp kp rf kf where w:
    "calculate_nondomination_rank ?ov (Some 2) = Some (rp, kp)"
    "calculate_nondomination_rank ?ov None = Some (rf, kf)"
    "\<forall>i < length ?ov. 0 \<le> rf ! i \<and> rp ! i = (if rf ! i \<le> kp then rf ! i else - 1)"
    by blast
  from w(3) have "rp ! 3 = (if rf ! 3 \<le> kp then rf ! 3 else - 1)" by simp
  with w(1,2) r e1 e2 show ?thesis by blast
qed

subsection \<open>The Pareto front and rank 0\<close>

lemma all_le_fge:
  "length xs = length ys \<Longrightarrow> all_le xs ys \<longleftrightarrow> list_all (\<lambda>(a, b). fge a b) (zip ys xs)"
  unfolding all_le_def
  by (induction xs ys rule: list_induct2) (simp_all add: fge_def)

lemma not_list_feq_fgt:
  "length xs = length ys \<Longrightarrow> all_le xs ys \<Longrightarrow>
   \<not> list_feq xs ys \<longleftrightarrow> list_ex (\<lambda>(a, b). fgt a b) (zip ys xs)"
  unfolding all_le_def
proof (induction xs ys rule: list_induct2)
  case Nil
  then show ?case by simp
next
  case (Cons x xs y ys)
  then have "fle x y" by simp
  then have "feq x y \<longleftrightarrow> \<not> flt x y"
    using fle_not_nan[of x y] by (auto simp: feq_def flt_iff)
  then show ?case using Cons by (auto simp: fgt_def)
qed

lemma dominates_tail:
  assumes "length xs = length ys"
  shows "(if list_feq xs ys then False else all_le xs ys) = dominated_by ys xs"
proof (cases "all_le xs ys")
  case True
  then show ?thesis
    using not_list_feq_fgt[OF assms True] all_le_fge[OF assms] by (auto simp: dominated_by_def)
next
  case False
  then show ?thesis using all_le_fge[OF assms] by (simp add: dominated_by_def)
qed

lemma dominates_complete:
  assumes "state a = COMPLETE" "values a = Some va" "length va = length directions"
    and "state b = COMPLETE" "values b = Some vb" "length vb = length directions"
  shows "dominates a b directions =
         Inr (dominated_by (normalized vb directions) (normalized va directions))"
proof -
  have "length (normalized va directions) = length (normalized vb directions)"
    using assms by simp
  from dominates_tail[OF this] show ?thesis
    using assms by (auto simp: dominates_def Let_def split: if_splits)
qed

lemma any_dominates_complete:
  assumes "\<forall>t \<in> set others. state t = COMPLETE \<and>
             (\<exists>vs. values t = Some vs \<and> length vs = length directions)"
    and "state trial = COMPLETE" "values trial = Some vs" "length vs = length directions"
  shows "any_dominates others trial directions =
         Inr (\<exists>other \<in> set others. dominated_by (normalized vs directions)
                (normalized (case values other of None \<Rightarrow> [] | Some v \<Rightarrow> v) directions))"
  using assms(1)
proof (induction others)
  case Nil
  then show ?case by simp
next
  case (Cons other others)
  then obtain vo where vo: "state other = COMPLETE" "values other = Some vo"
    "length vo = length directions" by auto
  have "dominates other trial directions =
        Inr (dominated_by (normalized vs directions) (normalized vo directions))"
    by (rule dominates_complete[OF vo assms(2-4)])
  then show ?case using Cons vo by simp
qed

lemma nd_loop_complete:
  assumes "\<forall>t \<in> set trials. state t = COMPLETE \<and>
             (\<exists>vs. values t = Some vs \<and> length vs = length directions)"
    and "set rest \<subseteq> set trials"
  shows "nd_loop trials rest directions =
         Inr (filter (\<lambda>t. \<not> (\<exists>other \<in> set trials.
                dominated_by (normalized (case values t of None \<Rightarrow> [] | Some v \<Rightarrow> v) directions)
                  (normalized (case values other of None \<Rightarrow> [] | Some v \<Rightarrow> v) directions))) rest)"
  using assms(2)
proof (induction rest)
  case Nil
  then show ?case by simp
next
  case (Cons trial rest)
  then obtain vs where vs: "state trial = COMPLETE" "values trial = Some vs"
    "length vs = length directions" using assms(1) by auto
  show ?case
    using Cons any_dominates_complete[OF assms(1) vs] vs by simp
qed

lemma normalized_matrix_simps [simp]:
  "length (normalized_matrix trials directions) = length trials"
  "i < length trials \<Longrightarrow> normalized_matrix trials directions ! i =
     normalized (case values (trials ! i) of None \<Rightarrow> [] | Some v \<Rightarrow> v) directions"
  by (simp_all add: normalized_matrix_def)

lemma rectangular_normalized_matrix:
  assumes "\<forall>t \<in> set trials. state t = COMPLETE \<and>
             (\<exists>vs. values t = Some vs \<and> length vs = length directions)"
  shows "rectangular (normalized_matrix trials directions)"
proof -
  have "length r = length directions" if "r \<in> set (normalized_matrix trials directions)" for r
    using that assms by (auto simp: normalized_matrix_def)
  then show ?thesis by (simp add: rectangular_def)
qed

text \<open>
  Claim C4.  For COMPLETE trials whose value vectors have as many entries as there are
  directions, the ND extraction returns a front, the ranking of the matrix of normalised
  value vectors with \<open>n_below\<close> defaulted returns a rank array, and a trial is in the front
  exactly when the rank of its row is 0.
\<close>

theorem pareto_front_is_rank_zero:
  assumes "\<forall>t \<in> set trials. state t = COMPLETE \<and>
             (\<exists>vs. values t = Some vs \<and> length vs = length directions)"
  shows "\<exists>front rs r.
           get_pareto_front_trials_nd trials directions = Inr front \<and>
           calculate_nondomination_rank (normalized_matrix trials directions) None = Some (rs, r) \<and>
           length rs = length trials \<and>
           (\<forall>i < length trials. trials ! i \<in> set front \<longleftrightarrow> rs ! i = 0)"
proof -
  let ?M = "normalized_matrix trials directions"
  let ?row = "\<lambda>t. normalized (case values t of None \<Rightarrow> [] | Some v \<Rightarrow> v) directions"
  let ?front = "filter (\<lambda>t. \<not> (\<exists>other \<in> set trials. dominated_by (?row t) (?row other))) trials"
  have "filter (\<lambda>t. state t = COMPLETE) trials = trials" using assms by (simp add: filter_id_conv)
  then have front: "get_pareto_front_trials_nd trials directions = Inr ?front"
    using nd_loop_complete[OF assms subset_refl] by (simp add: get_pareto_front_trials_nd_def)
  have rect: "rectangular ?M" by (rule rectangular_normalized_matrix[OF assms])
  have "(None :: int option) = None \<or> (\<exists>b. None = Some b \<and> b \<le> int (length ?M))" by simp
  from calculate_terminates[OF rect this] obtain k where k:
    "calculate_nondomination_rank ?M None =
       Some (ranks (peel_iterate ?M k), rank (peel_iterate ?M k))"
    "\<not> ranked_idx_num (peel_iterate ?M k) < int (length trials)"
    by (auto simp: n_below_or_def)
  have iff: "trials ! i \<in> set ?front \<longleftrightarrow> ranks (peel_iterate ?M k) ! i = 0"
    if i: "i < length trials" for i
  proof -
    have "k \<noteq> 0"
    proof
      assume "k = 0"
      then have "ranked_idx_num (peel_iterate ?M k) = 0" by (simp add: peel_init_def)
      then show False using k(2) i by simp
    qed
    then have "ranks (peel_iterate ?M k) ! i = 0 \<longleftrightarrow> (\<forall>j < length trials. \<not> dom_rel ?M i j)"
      using peel_iterate_zero[of i ?M k] i by simp
    also have "\<dots> \<longleftrightarrow> (\<forall>j < length trials. \<not> dominated_by (?row (trials ! i)) (?row (trials ! j)))"
      using i by (simp add: dom_rel_def)
    also have "\<dots> \<longleftrightarrow> \<not> (\<exists>other \<in> set trials. dominated_by (?row (trials ! i)) (?row other))"
      using nth_mem[of _ trials] by (fastforce simp: in_set_conv_nth)
    also have "\<dots> \<longleftrightarrow> trials ! i \<in> set ?front" using i by simp
    finally show ?thesis by blast
  qed
  have "length (ranks (peel_iterate ?M k)) = length trials" by simp
  with front k(1) iff show ?thesis by blast
qed

theorem pareto_front_is_rank_zero_witness:
  "\<exists>front rs r.
     get_pareto_front_trials_nd
       [\<lparr>number = 0, state = COMPLETE, values = Some [Some (Fin 1), Some (Fin 5)]\<rparr>,
        \<lparr>number = 1, state = COMPLETE, values = Some [Some (Fin 2), Some (Fin 3)]\<rparr>]
       [MINIMIZE, MAXIMIZE] = Inr front \<and>
     calculate_nondomination_rank
       (normalized_matrix
          [\<lparr>number = 0, state = COMPLETE, values = Some [Some (Fin 1), Some (Fin 5)]\<rparr>,
           \<lparr>number = 1, state = COMPLETE, values = Some [Some (Fin 2), Some (Fin 3)]\<rparr>]
          [MINIMIZE, MAXIMIZE]) None = Some (rs, r) \<and>
     (\<lparr>number = 1, state = COMPLETE, values = Some [Some (Fin 2), Some (Fin 3)]\<rparr> \<in> set front
        \<longleftrightarrow> rs ! 1 = 0)"
proof -
  let ?a = "\<lparr>number = 0, state = COMPLETE, values = Some [Some (Fin 1), Some (Fin 5)]\<rparr>"
  let ?b = "\<lparr>number = 1, state = COMPLETE, values = Some [Some (Fin 2), Some (Fin 3)]\<rparr>"
  have "\<forall>t \<in> set [?a, ?b]. state t = COMPLETE \<and>
          (\<exists>vs. values t = Some vs \<and> length vs = length [MINIMIZE, MAXIMIZE])"
    by simp
  from pareto_front_is_rank_zero[OF this] obtain front rs r where w:
    "get_pareto_front_trials_nd [?a, ?b] [MINIMIZE, MAXIMIZE] = Inr front"
    "calculate_nondomination_rank (normalized_matrix [?a, ?b] [MINIMIZE, MAXIMIZE]) None =
       Some (rs, r)"
    "\<forall>i < length [?a, ?b]. [?a, ?b] ! i \<in> set front \<longleftrightarrow> rs ! i = 0"
    by blast
  have "(1::nat) < length [?a, ?b]" by simp
  with w(3) have "[?a, ?b] ! 1 \<in> set front \<longleftrightarrow> rs ! 1 = 0" by blast
  then have "?b \<in> set front \<longleftrightarrow> rs ! 1 = 0" by simp
  with w(1,2) show ?thesis by blast
qed

section \<open>Precedence of the partitions\<close>

subsection \<open>Masked selection and addition\<close>

lemma fold_add_other:
  "j \<notin> set idxs \<Longrightarrow> fold (\<lambda>(i, v) a. a[i := a ! i + v]) (zip idxs vals) a ! j = a ! j"
proof (induction idxs arbitrary: vals a)
  case Nil
  then show ?case by simp
next
  case (Cons i idxs)
  then show ?case by (cases vals) auto
qed

lemma length_fold_add [simp]:
  "length (fold (\<lambda>(i, v) a. a[i := a ! i + v]) ps a) = length a"
  by (induction ps arbitrary: a) auto

lemma fold_add_nth:
  assumes "distinct idxs" "length vals = length idxs" "k < length idxs" "idxs ! k < length a"
  shows "fold (\<lambda>(i, v) a. a[i := a ! i + v]) (zip idxs vals) a ! (idxs ! k) =
         a ! (idxs ! k) + vals ! k"
  using assms
proof (induction idxs arbitrary: vals a k)
  case Nil
  then show ?case by simp
next
  case (Cons i idxs)
  then obtain v vs where vals: "vals = v # vs" by (cases vals) auto
  show ?case
  proof (cases k)
    case 0
    have "i \<notin> set idxs" using Cons.prems(1) by simp
    then show ?thesis
      using 0 vals Cons.prems(4) by (simp add: fold_add_other)
  next
    case (Suc k')
    have ne: "idxs ! k' \<noteq> i" using Cons.prems(1,3) Suc by auto
    have "fold (\<lambda>(i, v) a. a[i := a ! i + v]) (zip idxs vs) (a[i := a ! i + v]) ! (idxs ! k') =
          (a[i := a ! i + v]) ! (idxs ! k') + vs ! k'"
      using Cons.prems Suc vals by (intro Cons.IH) auto
    then show ?thesis using Suc vals ne by simp
  qed
qed

lemma length_mask_add [simp]: "length (mask_add msk a vals) = length a"
  by (simp add: mask_add_def)

lemma length_mask_select [simp]: "length (mask_select msk xs) = length (nonzero1 msk)"
  by (simp add: mask_select_def)

lemma mask_add_out:
  assumes "i < length msk" "\<not> msk ! i"
  shows "mask_add msk a vals ! i = a ! i"
  using assms by (simp add: mask_add_def fold_add_other set_nonzero1)

lemma mask_add_in:
  assumes "i < length msk" "msk ! i" "length a = length msk" "length vals = length (nonzero1 msk)"
  shows "\<exists>k < length vals. mask_add msk a vals ! i = a ! i + vals ! k"
proof -
  have "i \<in> set (nonzero1 msk)" using assms(1,2) by (simp add: set_nonzero1)
  then obtain k where k: "k < length (nonzero1 msk)" "nonzero1 msk ! k = i"
    by (auto simp: in_set_conv_nth)
  have "mask_add msk a vals ! (nonzero1 msk ! k) = a ! (nonzero1 msk ! k) + vals ! k"
    unfolding mask_add_def
    using assms k by (intro fold_add_nth) simp_all
  then show ?thesis using k assms(4) by auto
qed

lemma rectangular_mask_select:
  assumes "rectangular ov" "length msk = length ov"
  shows "rectangular (mask_select msk ov)"
proof -
  have "set (mask_select msk ov) \<subseteq> set ov"
    using assms(2) by (auto simp: mask_select_def set_nonzero1)
  then show ?thesis using assms(1) unfolding rectangular_def by blast
qed

lemma rectangular_column: "rectangular (map (\<lambda>p. [p]) xs)"
  by (auto simp: rectangular_def)

lemma calculate_full:
  assumes "rectangular M" "n_below = None \<or> n_below = Some 0"
  shows "\<exists>rs b. calculate_nondomination_rank M n_below = Some (rs, b) \<and> length rs = length M \<and>
                (\<forall>k < length M. 0 \<le> rs ! k \<and> rs ! k \<le> b) \<and> - 1 \<le> b"
proof -
  have nb: "n_below_or n_below (length M) = int (length M)"
    using assms(2) by (auto simp: n_below_or_def)
  have "n_below = None \<or> (\<exists>b. n_below = Some b \<and> b \<le> int (length M))" using assms(2) by auto
  from calculate_terminates[OF assms(1) this] obtain k where k:
    "calculate_nondomination_rank M n_below =
       Some (ranks (peel_iterate M k), rank (peel_iterate M k))"
    "\<not> ranked_idx_num (peel_iterate M k) < int (length M)"
    unfolding nb by blast
  have "0 \<le> ranks (peel_iterate M k) ! i \<and> ranks (peel_iterate M k) ! i \<le> rank (peel_iterate M k)"
    if "i < length M" for i
    using peel_iterate_ranked_bounds[OF that peel_iterate_all_ranked[OF k(2) that]]
    by (simp add: rank_peel_iterate)
  moreover have "- 1 \<le> rank (peel_iterate M k)" by (simp add: rank_peel_iterate)
  ultimately show ?thesis using k(1) by simp
qed

lemma penalty_partition:
  "\<not> isnan p \<Longrightarrow> fle p (Fin 0) \<noteq> fgt p (Fin 0)"
  by (cases p) (auto simp: fgt_def)

text \<open>
  Claim C2, as amended.  With \<open>n_below\<close> left at its default (\<open>None\<close>, or \<open>0\<close>, which is
  treated alike) the constraint-aware ranking returns a rank for every row, and every
  feasible row (penalty \<open>\<le> 0\<close>) has a smaller rank than every infeasible row (penalty
  \<open>> 0\<close>), which has a smaller rank than every row of unknown feasibility (penalty NaN),
  whatever the objective values are.
\<close>

theorem partition_precedence:
  assumes "rectangular ov" "length penalty = length ov" "n_below = None \<or> n_below = Some 0"
  shows "\<exists>rs. fast_non_dominated_sort ov (Some penalty) n_below = Some (Inr rs) \<and>
              length rs = length ov \<and>
              (\<forall>i < length ov. \<forall>j < length ov.
                 (fle (penalty ! i) (Fin 0) \<and> fgt (penalty ! j) (Fin 0) \<longrightarrow> rs ! i < rs ! j) \<and>
                 (fgt (penalty ! i) (Fin 0) \<and> isnan (penalty ! j) \<longrightarrow> rs ! i < rs ! j) \<and>
                 (fle (penalty ! i) (Fin 0) \<and> isnan (penalty ! j) \<longrightarrow> rs ! i < rs ! j))"
proof -
  let ?n = "length ov"
  let ?isn = "map isnan penalty"
  let ?isf = "map (\<lambda>p. \<not> isnan p \<and> fle p (Fin 0)) penalty"
  let ?isi = "map (\<lambda>p. \<not> isnan p \<and> fgt p (Fin 0)) penalty"
  from calculate_full[OF rectangular_mask_select[OF assms(1), of ?isf] assms(3)] assms(2)
  obtain rf fb where f: "calculate_nondomination_rank (mask_select ?isf ov) n_below = Some (rf, fb)"
    "length rf = length (nonzero1 ?isf)" "\<forall>k < length rf. 0 \<le> rf ! k \<and> rf ! k \<le> fb"
    by auto
  from calculate_full[OF rectangular_column[of "mask_select ?isi penalty"] assms(3)]
  obtain ri ib where i: "calculate_nondomination_rank
      (map (\<lambda>p. [p]) (mask_select ?isi penalty)) n_below = Some (ri, ib)"
    "length ri = length (nonzero1 ?isi)" "\<forall>k < length ri. 0 \<le> ri ! k \<and> ri ! k \<le> ib"
    "- 1 \<le> ib"
    by auto
  from calculate_full[OF rectangular_mask_select[OF assms(1), of ?isn] assms(3)] assms(2)
  obtain rn nb where n: "calculate_nondomination_rank (mask_select ?isn ov) n_below = Some (rn, nb)"
    "length rn = length (nonzero1 ?isn)" "\<forall>k < length rn. 0 \<le> rn ! k \<and> rn ! k \<le> nb"
    by auto
  let ?A1 = "mask_add ?isf (replicate ?n 0) rf"
  let ?A2 = "mask_add ?isi ?A1 (map (\<lambda>r. r + (fb + 1)) ri)"
  let ?R = "mask_add ?isn ?A2 (map (\<lambda>r. r + (fb + 1) + (ib + 1)) rn)"
  have res: "fast_non_dominated_sort ov (Some penalty) n_below = Some (Inr ?R)"
    using assms(2) f(1) i(1) n(1) by (simp add: fast_non_dominated_sort_def Let_def)
  have F: "0 \<le> ?R ! x \<and> ?R ! x \<le> fb" if x: "x < ?n" "fle (penalty ! x) (Fin 0)" for x
  proof -
    have nn: "\<not> isnan (penalty ! x)" using fle_not_nan x(2) by blast
    have ni: "\<not> fgt (penalty ! x) (Fin 0)" using penalty_partition[OF nn] x(2) by simp
    have "x < length ?isf" "?isf ! x" "length (replicate ?n (0::int)) = length ?isf"
      using x nn assms(2) by simp_all
    from mask_add_in[OF this, of rf] f(2) obtain k where
      k: "k < length rf" "?A1 ! x = replicate ?n 0 ! x + rf ! k" by auto
    have "?A2 ! x = ?A1 ! x" using x(1) ni assms(2) by (intro mask_add_out) simp_all
    moreover have "?R ! x = ?A2 ! x" using x(1) nn assms(2) by (intro mask_add_out) simp_all
    ultimately show ?thesis using k f(3) x(1) by simp
  qed
  have I: "fb + 1 \<le> ?R ! x \<and> ?R ! x \<le> fb + 1 + ib" if x: "x < ?n" "fgt (penalty ! x) (Fin 0)" for x
  proof -
    have nn: "\<not> isnan (penalty ! x)" using fle_not_nan x(2) by (auto simp: fgt_def flt_iff)
    have nf: "\<not> fle (penalty ! x) (Fin 0)" using penalty_partition[OF nn] x(2) by simp
    have a1: "?A1 ! x = replicate ?n 0 ! x" using x(1) nf assms(2) by (intro mask_add_out) simp_all
    have "x < length ?isi" "?isi ! x" "length ?A1 = length ?isi"
      using x nn assms(2) by simp_all
    from mask_add_in[OF this, of "map (\<lambda>r. r + (fb + 1)) ri"] i(2) obtain k where
      k: "k < length ri" "?A2 ! x = ?A1 ! x + map (\<lambda>r. r + (fb + 1)) ri ! k" by auto
    have "?R ! x = ?A2 ! x" using x(1) nn assms(2) by (intro mask_add_out) simp_all
    then show ?thesis using k a1 i(3) x(1) by simp
  qed
  have N: "fb + 1 + ib + 1 \<le> ?R ! x" if x: "x < ?n" "isnan (penalty ! x)" for x
  proof -
    have a1: "?A1 ! x = replicate ?n 0 ! x" using x assms(2) by (intro mask_add_out) simp_all
    have a2: "?A2 ! x = ?A1 ! x" using x assms(2) by (intro mask_add_out) simp_all
    have "x < length ?isn" "?isn ! x" "length ?A2 = length ?isn"
      using x assms(2) by simp_all
    from mask_add_in[OF this, of "map (\<lambda>r. r + (fb + 1) + (ib + 1)) rn"] n(2) obtain k where
      k: "k < length rn" "?R ! x = ?A2 ! x + map (\<lambda>r. r + (fb + 1) + (ib + 1)) rn ! k" by auto
    then show ?thesis using a1 a2 n(3) x(1) by simp
  qed
  have "(fle (penalty ! x) (Fin 0) \<and> fgt (penalty ! y) (Fin 0) \<longrightarrow> ?R ! x < ?R ! y) \<and>
        (fgt (penalty ! x) (Fin 0) \<and> isnan (penalty ! y) \<longrightarrow> ?R ! x < ?R ! y) \<and>
        (fle (penalty ! x) (Fin 0) \<and> isnan (penalty ! y) \<longrightarrow> ?R ! x < ?R ! y)"
    if "x < ?n" "y < ?n" for x y
  proof (intro conjI impI)
    assume "fle (penalty ! x) (Fin 0) \<and> fgt (penalty ! y) (Fin 0)"
    then have "?R ! x \<le> fb" "fb + 1 \<le> ?R ! y" using F[OF that(1)] I[OF that(2)] by blast+
    then show "?R ! x < ?R ! y" by linarith
  next
    assume "fgt (penalty ! x) (Fin 0) \<and> isnan (penalty ! y)"
    then have "?R ! x \<le> fb + 1 + ib" "fb + 1 + ib + 1 \<le> ?R ! y"
      using I[OF that(1)] N[OF that(2)] by blast+
    then show "?R ! x < ?R ! y" by linarith
  next
    assume "fle (penalty ! x) (Fin 0) \<and> isnan (penalty ! y)"
    then have "?R ! x \<le> fb" "fb + 1 + ib + 1 \<le> ?R ! y"
      using F[OF that(1)] N[OF that(2)] by blast+
    then show "?R ! x < ?R ! y" using i(4) by linarith
  qed
  moreover have "length ?R = ?n" by simp
  ultimately show ?thesis using res by blast
qed

theorem partition_precedence_witness:
  "rectangular [[Fin 5], [Fin 1], [Fin 0], [Fin 7]] \<and>
   fast_non_dominated_sort [[Fin 5], [Fin 1], [Fin 0], [Fin 7]]
     (Some [Fin (- 1), Fin 2, NaN, Fin 0]) None = Some (Inr [0, 2, 3, 1]) \<and>
   (\<exists>rs. fast_non_dominated_sort [[Fin 5], [Fin 1], [Fin 0], [Fin 7]]
            (Some [Fin (- 1), Fin 2, NaN, Fin 0]) None = Some (Inr rs) \<and>
         rs ! 3 < rs ! 1 \<and> rs ! 1 < rs ! 2)"
proof -
  let ?ov = "[[Fin 5], [Fin 1], [Fin 0], [Fin 7]]"
  let ?pen = "[Fin (- 1), Fin 2, NaN, Fin 0]"
  have r: "rectangular ?ov" by (simp add: rectangular_def)
  have l: "length ?pen = length ?ov" by simp
  have e: "fast_non_dominated_sort ?ov (Some ?pen) None = Some (Inr [0, 2, 3, 1])" by code_simp
  from partition_precedence[OF r l, of None] obtain rs where w:
    "fast_non_dominated_sort ?ov (Some ?pen) None = Some (Inr rs)"
    "\<forall>i < length ?ov. \<forall>j < length ?ov.
       (fle (?pen ! i) (Fin 0) \<and> fgt (?pen ! j) (Fin 0) \<longrightarrow> rs ! i < rs ! j) \<and>
       (fgt (?pen ! i) (Fin 0) \<and> isnan (?pen ! j) \<longrightarrow> rs ! i < rs ! j) \<and>
       (fle (?pen ! i) (Fin 0) \<and> isnan (?pen ! j) \<longrightarrow> rs ! i < rs ! j)"
    by blast
  have "(3::nat) < length ?ov" "(1::nat) < length ?ov" "(2::nat) < length ?ov" by simp_all
  with w(2) have "rs ! 3 < rs ! 1" "rs ! 1 < rs ! 2"
    by (force simp: fgt_def)+
  with w(1) r e show ?thesis by blast
qed

theorem partition_precedence_counterexample:
  "fast_non_dominated_sort [[Fin 1], [Fin 2], [Fin 3], [Fin 4]]
     (Some [Fin (- 1), Fin 1, Fin 2, NaN]) (Some 1) = Some (Inr [0, 1, 0, 2])"
  by code_simp

section \<open>The two Pareto-front algorithms\<close>

subsection \<open>Sorting\<close>

lemma set_insort_lt [simp]: "set (insort_lt lt x ys) = insert x (set ys)"
  by (induction ys) auto

lemma length_insort_lt [simp]: "length (insort_lt lt x ys) = Suc (length ys)"
  by (induction ys) auto

lemma set_foldl_insort:
  "set (foldl (\<lambda>acc x. insort_lt lt x acc) acc xs) = set acc \<union> set xs"
  by (induction xs arbitrary: acc) auto

lemma length_foldl_insort:
  "length (foldl (\<lambda>acc x. insort_lt lt x acc) acc xs) = length acc + length xs"
  by (induction xs arbitrary: acc) auto

lemma set_py_sort [simp]: "set (py_sort lt xs) = set xs"
  by (simp add: py_sort_def set_foldl_insort)

lemma length_py_sort [simp]: "length (py_sort lt xs) = length xs"
  by (simp add: py_sort_def length_foldl_insort)

lemma insort_lt_unchanged:
  "\<forall>y \<in> set ys. \<not> lt (fst x) (fst y) \<Longrightarrow> insort_lt lt x ys = ys @ [x]"
  by (induction ys) auto

lemma py_sort_unchanged_aux:
  assumes "\<forall>i < length (acc @ xs). \<forall>j < i. \<not> lt (fst ((acc @ xs) ! i)) (fst ((acc @ xs) ! j))"
  shows "foldl (\<lambda>acc x. insort_lt lt x acc) acc xs = acc @ xs"
  using assms
proof (induction xs arbitrary: acc)
  case Nil
  then show ?case by simp
next
  case (Cons x xs)
  have "\<not> lt (fst x) (fst y)" if "y \<in> set acc" for y
  proof -
    from that obtain j where j: "j < length acc" "acc ! j = y" by (auto simp: in_set_conv_nth)
    have "\<not> lt (fst ((acc @ x # xs) ! length acc)) (fst ((acc @ x # xs) ! j))"
      using Cons.prems j(1) by (metis add_Suc_right length_Cons length_append less_add_Suc1)
    then show ?thesis using j by (simp add: nth_append)
  qed
  then have "insort_lt lt x acc = acc @ [x]" by (simp add: insort_lt_unchanged)
  moreover have "foldl (\<lambda>acc x. insort_lt lt x acc) (acc @ [x]) xs = (acc @ [x]) @ xs"
    using Cons.prems by (intro Cons.IH) simp
  ultimately show ?case by simp
qed

lemma py_sort_unchanged:
  assumes "\<forall>i < length xs. \<forall>j < i. \<not> lt (fst (xs ! i)) (fst (xs ! j))"
  shows "py_sort lt xs = xs"
  using py_sort_unchanged_aux[of "[]" xs lt] assms by (simp add: py_sort_def)

subsection \<open>Keys without NaN\<close>

lemma key_lt_iff:
  assumes "key_ok p" "key_ok q"
  shows "key_lt p q \<longleftrightarrow> flt (fst p) (fst q) \<or> (fst p = fst q \<and> flt (snd p) (snd q))"
  using assms by (auto simp: key_lt_def key_ok_def feq_def flt_iff)

lemma flt_trans: "flt a b \<Longrightarrow> flt b c \<Longrightarrow> flt a c"
  by (cases a; cases b; cases c) simp_all

lemma flt_irrefl: "\<not> flt a a"
  by (cases a) simp_all

lemma flt_total: "\<not> isnan a \<Longrightarrow> \<not> isnan b \<Longrightarrow> \<not> flt a b \<Longrightarrow> \<not> flt b a \<Longrightarrow> a = b"
  by (cases a; cases b) auto

lemma not_flt_fle: "\<not> isnan a \<Longrightarrow> \<not> isnan b \<Longrightarrow> \<not> flt a b \<longleftrightarrow> fle b a"
  by (cases a; cases b) auto

lemma key_lt_trans:
  assumes "key_ok p" "key_ok q" "key_ok r" "key_lt p q" "key_lt q r"
  shows "key_lt p r"
proof -
  have "flt (fst p) (fst q) \<or> (fst p = fst q \<and> flt (snd p) (snd q))"
    "flt (fst q) (fst r) \<or> (fst q = fst r \<and> flt (snd q) (snd r))"
    using assms(4,5) key_lt_iff[OF assms(1,2)] key_lt_iff[OF assms(2,3)] by blast+
  then have "flt (fst p) (fst r) \<or> (fst p = fst r \<and> flt (snd p) (snd r))"
    using flt_trans by metis
  then show ?thesis using key_lt_iff[OF assms(1,3)] by blast
qed

lemma key_lt_asym:
  assumes "key_ok p" "key_ok q" "key_lt p q"
  shows "\<not> key_lt q p"
proof
  assume "key_lt q p"
  then have "key_lt p p" using key_lt_trans[OF assms(1,2,1) assms(3)] by blast
  then show False using key_lt_iff[OF assms(1,1)] flt_irrefl by blast
qed

lemma key_le_fst:
  assumes "key_ok p" "key_ok q" "\<not> key_lt q p"
  shows "fle (fst p) (fst q)"
  using assms not_flt_fle[of "fst q" "fst p"]
  unfolding key_lt_iff[OF assms(2,1)] by (auto simp: key_ok_def)

lemma key_dom_lt:
  assumes "key_ok p" "key_ok q" "key_dom p q"
  shows "key_lt p q"
proof (cases "fst p = fst q")
  case True
  then have "snd p \<noteq> snd q" using assms(3) by (auto simp: key_dom_def prod_eq_iff)
  then have "flt (snd p) (snd q)" using assms(3) by (simp add: key_dom_def flt_iff)
  then show ?thesis using True key_lt_iff[OF assms(1,2)] by simp
next
  case False
  then have "flt (fst p) (fst q)" using assms(3) by (simp add: key_dom_def flt_iff)
  then show ?thesis using key_lt_iff[OF assms(1,2)] by simp
qed

lemma sorted_insort_key:
  assumes "key_ok (fst x)" "\<forall>y \<in> set ys. key_ok (fst y)"
    and "sorted_wrt (\<lambda>p q. \<not> key_lt (fst q) (fst p)) ys"
  shows "sorted_wrt (\<lambda>p q. \<not> key_lt (fst q) (fst p)) (insort_lt key_lt x ys)"
  using assms(2,3)
proof (induction ys)
  case Nil
  then show ?case by simp
next
  case (Cons y ys)
  show ?case
  proof (cases "key_lt (fst x) (fst y)")
    case True
    have "\<not> key_lt (fst z) (fst x)" if "z \<in> set (y # ys)" for z
    proof
      assume zx: "key_lt (fst z) (fst x)"
      have "key_ok (fst z)" "key_ok (fst y)" using Cons.prems(1) that by auto
      then have zy: "key_lt (fst z) (fst y)"
        using key_lt_trans[OF _ assms(1) _ zx True] by blast
      show False
      proof (cases "z = y")
        case True
        then show ?thesis using zy key_lt_asym[of "fst y" "fst y"] Cons.prems(1) by simp
      next
        case False
        then have "z \<in> set ys" using that by simp
        then show ?thesis using zy Cons.prems(2) by simp
      qed
    qed
    then show ?thesis using True Cons.prems(2) by simp
  next
    case False
    then show ?thesis using Cons by auto
  qed
qed

lemma sorted_py_sort_aux:
  assumes "\<forall>y \<in> set acc \<union> set xs. key_ok (fst y)"
    and "sorted_wrt (\<lambda>p q. \<not> key_lt (fst q) (fst p)) acc"
  shows "sorted_wrt (\<lambda>p q. \<not> key_lt (fst q) (fst p)) (foldl (\<lambda>acc x. insort_lt key_lt x acc) acc xs)"
  using assms
proof (induction xs arbitrary: acc)
  case Nil
  then show ?case by simp
next
  case (Cons x xs)
  have "sorted_wrt (\<lambda>p q. \<not> key_lt (fst q) (fst p)) (insort_lt key_lt x acc)"
    using Cons.prems by (intro sorted_insort_key) auto
  then show ?case using Cons.prems(1) by (simp add: Cons.IH)
qed

lemma sorted_py_sort:
  assumes "\<forall>y \<in> set xs. key_ok (fst y)"
  shows "sorted_wrt (\<lambda>p q. \<not> key_lt (fst q) (fst p)) (py_sort key_lt xs)"
  unfolding py_sort_def using assms by (intro sorted_py_sort_aux) simp_all

subsection \<open>Trials with two values and no NaN\<close>

lemma normalize_value_not_nan: "v \<noteq> Some NaN \<Longrightarrow> \<not> isnan (normalize_value v d)"
  by (cases v; cases d) (auto simp: normalize_value_def isnan_fneg intro: isnan.elims)

lemma good_trial_key:
  assumes "good_trial t" "length ds = 2"
  shows "sort_key_2d ds t = Inr (key_of ds t)" "key_ok (key_of ds t)"
    "\<exists>vs. state t = COMPLETE \<and> values t = Some vs \<and> length vs = length ds \<and>
          normalized vs ds = [fst (key_of ds t), snd (key_of ds t)]"
proof -
  from assms(1) obtain a b where v: "state t = COMPLETE" "values t = Some [a, b]"
    "a \<noteq> Some NaN" "b \<noteq> Some NaN" by (auto simp: good_trial_def)
  from assms(2) obtain d0 d1 where ds: "ds = [d0, d1]"
    by (cases ds; cases "tl ds") auto
  show "sort_key_2d ds t = Inr (key_of ds t)"
    using v ds by (simp add: sort_key_2d_def key_of_def)
  show "key_ok (key_of ds t)"
    using v ds by (simp add: key_ok_def key_of_def normalize_value_not_nan)
  show "\<exists>vs. state t = COMPLETE \<and> values t = Some vs \<and> length vs = length ds \<and>
          normalized vs ds = [fst (key_of ds t), snd (key_of ds t)]"
    using v ds by (simp add: key_of_def normalized_def)
qed

lemma dominated_by_key:
  assumes "key_ok p" "key_ok q"
  shows "dominated_by [fst q, snd q] [fst p, snd p] \<longleftrightarrow> key_dom p q"
  using assms
  by (auto simp: dominated_by_def key_dom_def key_ok_def fge_def fgt_def flt_iff prod_eq_iff
      dest: fle_refl)

lemma dominates_good:
  assumes "good_trial a" "good_trial b" "length ds = 2"
  shows "dominates a b ds = Inr (key_dom (key_of ds a) (key_of ds b))"
proof -
  from good_trial_key(3)[OF assms(1,3)] obtain va where
    a: "state a = COMPLETE" "values a = Some va" "length va = length ds"
    "normalized va ds = [fst (key_of ds a), snd (key_of ds a)]" by blast
  from good_trial_key(3)[OF assms(2,3)] obtain vb where
    b: "state b = COMPLETE" "values b = Some vb" "length vb = length ds"
    "normalized vb ds = [fst (key_of ds b), snd (key_of ds b)]" by blast
  show ?thesis
    using dominates_complete[OF a(1-3) b(1-3)] a(4) b(4)
      dominated_by_key[OF good_trial_key(2)[OF assms(1,3)] good_trial_key(2)[OF assms(2,3)]]
    by simp
qed

lemma keyed_good:
  assumes "\<forall>t \<in> set ts. good_trial t" "length ds = 2"
  shows "keyed (sort_key_2d ds) ts = Inr (map (\<lambda>t. (key_of ds t, t)) ts)"
  using assms(1) by (induction ts) (simp_all add: good_trial_key(1)[OF _ assms(2)])

lemma any_dominates_good:
  assumes "\<forall>t \<in> set others. good_trial t" "good_trial trial" "length ds = 2"
  shows "any_dominates others trial ds =
         Inr (\<exists>other \<in> set others. key_dom (key_of ds other) (key_of ds trial))"
  using assms(1)
  by (induction others) (simp_all add: dominates_good[OF _ assms(2,3)])

lemma nd_loop_good:
  assumes "\<forall>t \<in> set trials. good_trial t" "length ds = 2" "set rest \<subseteq> set trials"
  shows "nd_loop trials rest ds =
         Inr (filter (\<lambda>t. \<not> (\<exists>other \<in> set trials. key_dom (key_of ds other) (key_of ds t))) rest)"
  using assms(3)
proof (induction rest)
  case Nil
  then show ?case by simp
next
  case (Cons trial rest)
  then have "good_trial trial" using assms(1) by auto
  from any_dominates_good[OF assms(1) this assms(2)] Cons show ?case by simp
qed

subsection \<open>The sweep\<close>

lemma sweep_2d_correct:
  assumes ds: "length ds = 2"
    and good: "\<forall>t \<in> S. good_trial t"
    and S: "S = P \<union> set rest" "last_t \<in> P"
    and nd: "\<forall>u \<in> S. \<not> key_dom (key_of ds u) (key_of ds last_t)"
    and miny: "\<forall>p \<in> P. fle (snd (key_of ds last_t)) (snd (key_of ds p))"
    and sortedP: "\<forall>p \<in> P. \<forall>r \<in> set rest. \<not> key_lt (key_of ds r) (key_of ds p)"
    and sortedR: "sorted_wrt (\<lambda>a b. \<not> key_lt (key_of ds b) (key_of ds a)) rest"
  shows "\<exists>res. sweep_2d last_t rest ds = Inr res \<and>
           set res = insert last_t
             {t \<in> set rest. \<not> (\<exists>u \<in> S. key_dom (key_of ds u) (key_of ds t))}"
  using S nd miny sortedP sortedR
proof (induction rest arbitrary: last_t P)
  case Nil
  then show ?case by simp
next
  case (Cons t rest)
  let ?k = "key_of ds"
  have gl: "good_trial last_t" and gt: "good_trial t" using good Cons.prems(1,2) by auto
  have ok: "key_ok (?k x)" if "x \<in> S" for x using good that good_trial_key(2)[OF _ ds] by blast
  have okl: "key_ok (?k last_t)" and okt: "key_ok (?k t)" using ok Cons.prems(1,2) by auto
  have dom: "dominates last_t t ds = Inr (key_dom (?k last_t) (?k t))"
    by (rule dominates_good[OF gl gt ds])
  have S': "S = insert t P \<union> set rest" using Cons.prems(1) by auto
  have sP': "\<forall>p \<in> insert t P. \<forall>r \<in> set rest. \<not> key_lt (?k r) (?k p)"
    using Cons.prems(5,6) by auto
  have sR': "sorted_wrt (\<lambda>a b. \<not> key_lt (?k b) (?k a)) rest" using Cons.prems(6) by simp
  show ?case
  proof (cases "key_dom (?k last_t) (?k t)")
    case True
    have "\<forall>p \<in> insert t P. fle (snd (?k last_t)) (snd (?k p))"
      using Cons.prems(4) True by (auto simp: key_dom_def)
    from Cons.IH[OF S' _ Cons.prems(3) this sP' sR'] Cons.prems(2)
    obtain res where res: "sweep_2d last_t rest ds = Inr res"
      "set res = insert last_t {t \<in> set rest. \<not> (\<exists>u \<in> S. key_dom (?k u) (?k t))}"
      by auto
    have "last_t \<in> S" using Cons.prems(1,2) by auto
    then have "\<exists>u \<in> S. key_dom (?k u) (?k t)" using True by blast
    then have "{t' \<in> set (t # rest). \<not> (\<exists>u \<in> S. key_dom (?k u) (?k t'))} =
               {t' \<in> set rest. \<not> (\<exists>u \<in> S. key_dom (?k u) (?k t'))}" by auto
    then show ?thesis using res dom True by simp
  next
    case False
    have xle: "fle (fst (?k last_t)) (fst (?k t))"
      using key_le_fst[OF okl okt] Cons.prems(2,5) by auto
    have yle: "fle (snd (?k t)) (snd (?k last_t))"
    proof (cases "?k last_t = ?k t")
      case True
      then show ?thesis using okt fle_refl by (simp add: key_ok_def)
    next
      case ne: False
      then have "\<not> fle (snd (?k last_t)) (snd (?k t))" using False xle by (simp add: key_dom_def)
      then show ?thesis using fle_total okl okt by (auto simp: key_ok_def)
    qed
    have ndt: "\<not> key_dom (?k u) (?k t)" if u: "u \<in> S" for u
    proof
      assume d: "key_dom (?k u) (?k t)"
      then have lt: "key_lt (?k u) (?k t)" using key_dom_lt[OF ok[OF u] okt] by blast
      consider "u \<in> P" | "u = t" | "u \<in> set rest" using u Cons.prems(1) by auto
      then show False
      proof cases
        case 1
        have "fle (snd (?k last_t)) (snd (?k u))" using Cons.prems(4) 1 by blast
        then have "fle (snd (?k last_t)) (snd (?k t))" using d fle_trans by (auto simp: key_dom_def)
        then have eq: "?k last_t = ?k t" using False xle by (simp add: key_dom_def)
        then have "key_dom (?k u) (?k last_t)" using d by simp
        then show False using Cons.prems(3) u by blast
      next
        case 2
        then show False using d by (simp add: key_dom_def)
      next
        case 3
        then have "\<not> key_lt (?k u) (?k t)" using Cons.prems(6) by simp
        then show False using lt by blast
      qed
    qed
    have miny': "\<forall>p \<in> insert t P. fle (snd (?k t)) (snd (?k p))"
    proof
      fix p assume "p \<in> insert t P"
      then consider "p = t" | "p \<in> P" by auto
      then show "fle (snd (?k t)) (snd (?k p))"
      proof cases
        case 1
        then show ?thesis using okt fle_refl by (simp add: key_ok_def)
      next
        case 2
        then show ?thesis using Cons.prems(4) yle fle_trans by blast
      qed
    qed
    have "\<forall>u \<in> S. \<not> key_dom (?k u) (?k t)" using ndt by blast
    from Cons.IH[OF S' _ this miny' sP' sR']
    obtain res where res: "sweep_2d t rest ds = Inr res"
      "set res = insert t {t \<in> set rest. \<not> (\<exists>u \<in> S. key_dom (?k u) (?k t))}"
      by auto
    have "{t' \<in> set (t # rest). \<not> (\<exists>u \<in> S. key_dom (?k u) (?k t'))} =
          insert t {t' \<in> set rest. \<not> (\<exists>u \<in> S. key_dom (?k u) (?k t'))}"
      using ndt by auto
    then show ?thesis using res dom False by simp
  qed
qed

text \<open>
  Claim C3, as amended.  When there are two directions and every COMPLETE trial carries
  exactly two values, none of them NaN (a missing value is allowed), the 2D and the ND
  extraction both return, and they return the same set of trials, hence the same set of
  trial numbers; only the order may differ.
\<close>

theorem pareto_2d_nd_same_set:
  assumes "length directions = 2"
    and "\<forall>t \<in> set trials. state t = COMPLETE \<longrightarrow>
           (\<exists>a b. values t = Some [a, b] \<and> a \<noteq> Some NaN \<and> b \<noteq> Some NaN)"
  shows "\<exists>front2d frontnd.
           get_pareto_front_trials_2d trials directions = Inr front2d \<and>
           get_pareto_front_trials_nd trials directions = Inr frontnd \<and>
           set front2d = set frontnd \<and>
           number ` set front2d = number ` set frontnd"
proof -
  let ?ts = "filter (\<lambda>t. state t = COMPLETE) trials"
  let ?k = "key_of directions"
  let ?nd = "\<lambda>t. \<not> (\<exists>u \<in> set ?ts. key_dom (?k u) (?k t))"
  have good: "\<forall>t \<in> set ?ts. good_trial t" using assms(2) by (auto simp: good_trial_def)
  have nd: "get_pareto_front_trials_nd trials directions = Inr (filter ?nd ?ts)"
    using nd_loop_good[OF good assms(1) subset_refl]
    by (simp add: get_pareto_front_trials_nd_def)
  show ?thesis
  proof (cases "?ts = []")
    case True
    then have "get_pareto_front_trials_2d trials directions = Inr []"
      by (simp add: get_pareto_front_trials_2d_def)
    then show ?thesis using nd True by simp
  next
    case False
    let ?ks = "map (\<lambda>t. (?k t, t)) ?ts"
    let ?L = "map snd (py_sort key_lt ?ks)"
    have ks: "keyed (sort_key_2d directions) ?ts = Inr ?ks" by (rule keyed_good[OF good assms(1)])
    have "set ?L = snd ` set ?ks" by (simp only: set_map set_py_sort)
    also have "\<dots> = set ?ts" by (simp add: image_image)
    finally have setL: "set ?L = set ?ts" .
    have "length ?L = length ?ts" by simp
    then have "?L \<noteq> []" using False by (metis length_0_conv)
    then obtain first rest where L: "?L = first # rest" by (meson neq_Nil_conv)
    have okks: "\<forall>y \<in> set ?ks. key_ok (fst y)"
      using good good_trial_key(2)[OF _ assms(1)] by auto
    have srt: "sorted_wrt (\<lambda>p q. \<not> key_lt (fst q) (fst p)) (py_sort key_lt ?ks)"
      by (rule sorted_py_sort[OF okks])
    have "sorted_wrt (\<lambda>p q. \<not> key_lt (?k (snd q)) (?k (snd p))) (py_sort key_lt ?ks)"
    proof (rule sorted_wrt_mono_rel[OF _ srt])
      fix p q
      assume p: "p \<in> set (py_sort key_lt ?ks)" and q: "q \<in> set (py_sort key_lt ?ks)"
        and n: "\<not> key_lt (fst q) (fst p)"
      have "p \<in> set ?ks" "q \<in> set ?ks" using p q by (simp_all only: set_py_sort)
      then have "fst p = ?k (snd p)" "fst q = ?k (snd q)" by auto
      then show "\<not> key_lt (?k (snd q)) (?k (snd p))" using n by simp
    qed
    then have "sorted_wrt (\<lambda>a b. \<not> key_lt (?k b) (?k a)) ?L"
      by (simp only: sorted_wrt_map)
    then have sorted: "\<forall>r \<in> set rest. \<not> key_lt (?k r) (?k first)"
      "sorted_wrt (\<lambda>a b. \<not> key_lt (?k b) (?k a)) rest"
      unfolding L by simp_all
    have S: "set ?L = {first} \<union> set rest" "first \<in> {first}" using L by simp_all
    have goodL: "\<forall>t \<in> set ?L. good_trial t" using good setL by blast
    have ndfirst: "\<forall>u \<in> set ?L. \<not> key_dom (?k u) (?k first)"
    proof
      fix u assume u: "u \<in> set ?L"
      have okf: "key_ok (?k first)" and oku: "key_ok (?k u)"
        using goodL good_trial_key(2)[OF _ assms(1)] u L by auto
      show "\<not> key_dom (?k u) (?k first)"
      proof (cases "u = first")
        case True
        then show ?thesis by (simp add: key_dom_def)
      next
        case False
        then have "u \<in> set rest" using u L by simp
        then have "\<not> key_lt (?k u) (?k first)" using sorted(1) by blast
        then show ?thesis using key_dom_lt[OF oku okf] by blast
      qed
    qed
    have miny: "\<forall>p \<in> {first}. fle (snd (?k first)) (snd (?k p))"
      using goodL good_trial_key(2)[OF _ assms(1)] L fle_refl by (auto simp: key_ok_def)
    have sP: "\<forall>p \<in> {first}. \<forall>r \<in> set rest. \<not> key_lt (?k r) (?k p)" using sorted(1) by simp
    from sweep_2d_correct[OF assms(1) goodL S ndfirst miny sP sorted(2)]
    obtain res where res: "sweep_2d first rest directions = Inr res"
      "set res = insert first {t \<in> set rest. \<not> (\<exists>u \<in> set ?L. key_dom (?k u) (?k t))}"
      by blast
    have "set res = {t \<in> set ?L. \<not> (\<exists>u \<in> set ?L. key_dom (?k u) (?k t))}"
      using res(2) ndfirst L by auto
    then have setres: "set res = set (filter ?nd ?ts)" using setL by auto
    let ?f2 = "map snd (py_sort (<) (map (\<lambda>t. (number t, t)) res))"
    have "get_pareto_front_trials_2d trials directions = Inr ?f2"
      using False ks L res(1) by (simp add: get_pareto_front_trials_2d_def Let_def)
    moreover have "set ?f2 = snd ` set (map (\<lambda>t. (number t, t)) res)"
      by (simp only: set_map set_py_sort)
    then have "set ?f2 = set res" by (simp add: image_image)
    ultimately have "get_pareto_front_trials_2d trials directions = Inr ?f2 \<and>
        get_pareto_front_trials_nd trials directions = Inr (filter ?nd ?ts) \<and>
        set ?f2 = set (filter ?nd ?ts) \<and> number ` set ?f2 = number ` set (filter ?nd ?ts)"
      using nd setres by simp
    then show ?thesis by blast
  qed
qed

theorem pareto_2d_nd_same_set_witness:
  "get_pareto_front_trials_2d
     [\<lparr>number = 5, state = COMPLETE, values = Some [Some (Fin 0), Some (Fin 5)]\<rparr>,
      \<lparr>number = 4, state = FAIL, values = None\<rparr>,
      \<lparr>number = 1, state = COMPLETE, values = Some [Some (Fin 2), None]\<rparr>,
      \<lparr>number = 3, state = COMPLETE, values = Some [Some (Fin 1), Some (Fin 4)]\<rparr>]
     [MINIMIZE, MAXIMIZE] =
   Inr [\<lparr>number = 1, state = COMPLETE, values = Some [Some (Fin 2), None]\<rparr>,
        \<lparr>number = 5, state = COMPLETE, values = Some [Some (Fin 0), Some (Fin 5)]\<rparr>] \<and>
   get_pareto_front_trials_nd
     [\<lparr>number = 5, state = COMPLETE, values = Some [Some (Fin 0), Some (Fin 5)]\<rparr>,
      \<lparr>number = 4, state = FAIL, values = None\<rparr>,
      \<lparr>number = 1, state = COMPLETE, values = Some [Some (Fin 2), None]\<rparr>,
      \<lparr>number = 3, state = COMPLETE, values = Some [Some (Fin 1), Some (Fin 4)]\<rparr>]
     [MINIMIZE, MAXIMIZE] =
   Inr [\<lparr>number = 5, state = COMPLETE, values = Some [Some (Fin 0), Some (Fin 5)]\<rparr>,
        \<lparr>number = 1, state = COMPLETE, values = Some [Some (Fin 2), None]\<rparr>] \<and>
   (\<exists>front2d frontnd.
      get_pareto_front_trials_2d
        [\<lparr>number = 5, state = COMPLETE, values = Some [Some (Fin 0), Some (Fin 5)]\<rparr>,
         \<lparr>number = 4, state = FAIL, values = None\<rparr>,
         \<lparr>number = 1, state = COMPLETE, values = Some [Some (Fin 2), None]\<rparr>,
         \<lparr>number = 3, state = COMPLETE, values = Some [Some (Fin 1), Some (Fin 4)]\<rparr>]
        [MINIMIZE, MAXIMIZE] = Inr front2d \<and>
      get_pareto_front_trials_nd
        [\<lparr>number = 5, state = COMPLETE, values = Some [Some (Fin 0), Some (Fin 5)]\<rparr>,
         \<lparr>number = 4, state = FAIL, values = None\<rparr>,
         \<lparr>number = 1, state = COMPLETE, values = Some [Some (Fin 2), None]\<rparr>,
         \<lparr>number = 3, state = COMPLETE, values = Some [Some (Fin 1), Some (Fin 4)]\<rparr>]
        [MINIMIZE, MAXIMIZE] = Inr frontnd \<and>
      number ` set front2d = number ` set frontnd)"
proof -
  let ?ts = "[\<lparr>number = 5, state = COMPLETE, values = Some [Some (Fin 0), Some (Fin 5)]\<rparr>,
      \<lparr>number = 4, state = FAIL, values = None\<rparr>,
      \<lparr>number = 1, state = COMPLETE, values = Some [Some (Fin 2), None]\<rparr>,
      \<lparr>number = 3, state = COMPLETE, values = Some [Some (Fin 1), Some (Fin 4)]\<rparr>]"
  have l: "length [MINIMIZE, MAXIMIZE] = 2" by simp
  have g: "\<forall>t \<in> set ?ts. state t = COMPLETE \<longrightarrow>
             (\<exists>a b. values t = Some [a, b] \<and> a \<noteq> Some NaN \<and> b \<noteq> Some NaN)"
    by simp
  have e2: "get_pareto_front_trials_2d ?ts [MINIMIZE, MAXIMIZE] =
      Inr [\<lparr>number = 1, state = COMPLETE, values = Some [Some (Fin 2), None]\<rparr>,
           \<lparr>number = 5, state = COMPLETE, values = Some [Some (Fin 0), Some (Fin 5)]\<rparr>]"
    by code_simp
  have en: "get_pareto_front_trials_nd ?ts [MINIMIZE, MAXIMIZE] =
      Inr [\<lparr>number = 5, state = COMPLETE, values = Some [Some (Fin 0), Some (Fin 5)]\<rparr>,
           \<lparr>number = 1, state = COMPLETE, values = Some [Some (Fin 2), None]\<rparr>]"
    by code_simp
  from pareto_2d_nd_same_set[OF l g] e2 en show ?thesis by blast
qed

theorem pareto_2d_nd_counterexample:
  "get_pareto_front_trials_2d
     [\<lparr>number = 0, state = COMPLETE, values = Some [Some (Fin 1), Some (Fin 1)]\<rparr>,
      \<lparr>number = 1, state = COMPLETE, values = Some [Some NaN, Some (Fin 0)]\<rparr>,
      \<lparr>number = 2, state = COMPLETE, values = Some [Some (Fin 2), Some (Fin 2)]\<rparr>]
     [MINIMIZE, MINIMIZE] =
   Inr [\<lparr>number = 0, state = COMPLETE, values = Some [Some (Fin 1), Some (Fin 1)]\<rparr>,
        \<lparr>number = 1, state = COMPLETE, values = Some [Some NaN, Some (Fin 0)]\<rparr>,
        \<lparr>number = 2, state = COMPLETE, values = Some [Some (Fin 2), Some (Fin 2)]\<rparr>] \<and>
   get_pareto_front_trials_nd
     [\<lparr>number = 0, state = COMPLETE, values = Some [Some (Fin 1), Some (Fin 1)]\<rparr>,
      \<lparr>number = 1, state = COMPLETE, values = Some [Some NaN, Some (Fin 0)]\<rparr>,
      \<lparr>number = 2, state = COMPLETE, values = Some [Some (Fin 2), Some (Fin 2)]\<rparr>]
     [MINIMIZE, MINIMIZE] =
   Inr [\<lparr>number = 0, state = COMPLETE, values = Some [Some (Fin 1), Some (Fin 1)]\<rparr>,
        \<lparr>number = 1, state = COMPLETE, values = Some [Some NaN, Some (Fin 0)]\<rparr>] \<and>
   get_pareto_front_trials_2d
     [\<lparr>number = 0, state = COMPLETE,
       values = Some [Some (Fin 1), Some (Fin 2), Some (Fin 3)]\<rparr>]
     [MINIMIZE, MINIMIZE] =
   Inr [\<lparr>number = 0, state = COMPLETE,
         values = Some [Some (Fin 1), Some (Fin 2), Some (Fin 3)]\<rparr>] \<and>
   get_pareto_front_trials_nd
     [\<lparr>number = 0, state = COMPLETE,
       values = Some [Some (Fin 1), Some (Fin 2), Some (Fin 3)]\<rparr>]
     [MINIMIZE, MINIMIZE] = Inl ValueError"
  by code_simp

end
